theory Spec2Isabelle
  imports Complex_Main "HOL-Library.Multiset" "HOL-Library.Sublist"
begin

section \<open>JavaScript values used by the analyzer\<close>

text \<open>
  The analyzer of \<^verbatim>\<open>bank-statement-analyzer.tsx\<close> is the class \<^verbatim>\<open>BankAnalyzer\<close>
  (lines 10 to 96). Its arithmetic never throws: a division by zero, the mean of an empty
  array and the maximum of an empty array are the values \<^verbatim>\<open>NaN\<close>, \<^verbatim>\<open>NaN\<close> and
  \<^verbatim>\<open>undefined\<close>, and a comparison with one of them is false. The model keeps these
  values. A finite number is the rational that the IEEE double denotes (the sign of zero is
  not kept: no operation of the analyzer tells the two zeros apart).
\<close>

datatype jsval = Number rat | PosInfinity | NegInfinity | NaN | Undefined

text \<open>\<^verbatim>\<open>x > c\<close>, \<^verbatim>\<open>x >= c\<close> and \<^verbatim>\<open>x <= c\<close> for a finite number \<open>c\<close>;
  \<^verbatim>\<open>undefined\<close> is converted to \<^verbatim>\<open>NaN\<close> first.\<close>

fun js_gt :: "jsval \<Rightarrow> rat \<Rightarrow> bool" where
  "js_gt (Number x) c = (x > c)"
| "js_gt PosInfinity c = True"
| "js_gt NegInfinity c = False"
| "js_gt NaN c = False"
| "js_gt Undefined c = False"

fun js_ge :: "jsval \<Rightarrow> rat \<Rightarrow> bool" where
  "js_ge (Number x) c = (x \<ge> c)"
| "js_ge PosInfinity c = True"
| "js_ge NegInfinity c = False"
| "js_ge NaN c = False"
| "js_ge Undefined c = False"

fun js_le :: "jsval \<Rightarrow> rat \<Rightarrow> bool" where
  "js_le (Number x) c = (x \<le> c)"
| "js_le PosInfinity c = False"
| "js_le NegInfinity c = True"
| "js_le NaN c = False"
| "js_le Undefined c = False"

subsection \<open>Double precision\<close>

text \<open>
  The result of an addition or a division of two doubles is the exact result rounded to
  the nearest double, a tie going to the double with an even significand (IEEE 754
  binary64, the only rounding of JavaScript). A double is \<open>m * 2^q\<close> with \<open>\<bar>m\<bar> < 2^53\<close> and
  \<open>- 1074 \<le> q \<le> 971\<close>. For \<open>2^e \<le> \<bar>x\<bar> < 2^(e+1)\<close> the doubles around \<open>x\<close> are the multiples
  of \<open>2^q\<close> with \<open>q = max (e - 52) (- 1074)\<close>; a rounded magnitude of \<open>2^1024\<close> or more is an
  infinity.
\<close>

text \<open>The number of binary digits of a natural number.\<close>

fun bitLength :: "nat \<Rightarrow> nat" where
  "bitLength n = (if n = 0 then 0 else Suc (bitLength (n div 2)))"

declare bitLength.simps [simp del]

text \<open>The exponent \<open>e\<close> of a positive rational: \<open>2^e \<le> x < 2^(e+1)\<close>.\<close>

definition exponent :: "rat \<Rightarrow> int" where
  "exponent x =
     (if 1 \<le> x then int (bitLength (nat \<lfloor>x\<rfloor>)) - 1
      else - int (bitLength (nat (\<lceil>1 / x\<rceil> - 1))))"

definition roundTiesToEven :: "rat \<Rightarrow> int" where
  "roundTiesToEven y =
     (let n = \<lfloor>y\<rfloor>; r = y - of_int n
      in if r < 1 / 2 then n else if 1 / 2 < r then n + 1 else if even n then n else n + 1)"

definition toDouble :: "rat \<Rightarrow> jsval" where
  "toDouble x =
     (if x = 0 then Number 0
      else let q = max (exponent \<bar>x\<bar> - 52) (- 1074);
               r = of_int (roundTiesToEven (\<bar>x\<bar> / 2 powi q)) * 2 powi q
           in if 2 ^ 1024 \<le> r then (if 0 < x then PosInfinity else NegInfinity)
              else Number (if 0 < x then r else - r))"

text \<open>A decimal literal of the source, such as \<^verbatim>\<open>0.7\<close>, is the double nearest to it.\<close>

definition js_literal :: "rat \<Rightarrow> rat" where
  "js_literal x = (case toDouble x of Number r \<Rightarrow> r | _ \<Rightarrow> 0)"

text \<open>\<^verbatim>\<open>result + current\<close> for a finite number \<^verbatim>\<open>current\<close>, and \<^verbatim>\<open>x / n\<close> for the
  length \<open>n\<close> of an array.\<close>

fun js_add :: "jsval \<Rightarrow> rat \<Rightarrow> jsval" where
  "js_add (Number a) b = toDouble (a + b)"
| "js_add PosInfinity b = PosInfinity"
| "js_add NegInfinity b = NegInfinity"
| "js_add NaN b = NaN"
| "js_add Undefined b = NaN"

fun js_div :: "jsval \<Rightarrow> nat \<Rightarrow> jsval" where
  "js_div (Number a) n =
     (if n = 0 then (if a = 0 then NaN else if 0 < a then PosInfinity else NegInfinity)
      else toDouble (a / of_nat n))"
| "js_div PosInfinity n = PosInfinity"
| "js_div NegInfinity n = NegInfinity"
| "js_div NaN n = NaN"
| "js_div Undefined n = NaN"

text \<open>\<^verbatim>\<open>baseSum\<close> of lodash: \<^verbatim>\<open>result\<close> starts undefined, takes the first element and
  then adds each further element, from left to right. \<^verbatim>\<open>_.mean\<close> is \<^verbatim>\<open>NaN\<close> for an
  empty array, else that sum divided by the length.\<close>

definition baseSum_step :: "jsval \<Rightarrow> rat \<Rightarrow> jsval" where
  "baseSum_step result current =
     (if result = Undefined then Number current else js_add result current)"

definition baseSum :: "rat list \<Rightarrow> jsval" where
  "baseSum array = foldl baseSum_step Undefined array"

definition lodash_mean :: "rat list \<Rightarrow> jsval" where
  "lodash_mean array =
     (if length array = 0 then NaN else js_div (baseSum array) (length array))"

text \<open>\<^verbatim>\<open>_.max\<close>: \<^verbatim>\<open>undefined\<close> for an empty array, else a scan that keeps the
  greater value.\<close>

fun lodash_max :: "rat list \<Rightarrow> jsval" where
  "lodash_max [] = Undefined"
| "lodash_max (x # xs) = Number (fold (\<lambda>current computed. if current > computed then current else computed) xs x)"

subsection \<open>Dates\<close>

text \<open>
  A \<^verbatim>\<open>Date\<close> holds a time value, the milliseconds since the epoch in UTC, or is an
  Invalid Date. The time-zone adjustment of the host is a parameter \<open>tza\<close>, the offset in
  milliseconds of local time at a given UTC time value.

  \<^verbatim>\<open>toISOString()\<close> throws a \<^verbatim>\<open>RangeError\<close> on an Invalid Date. For the years 0000 to
  9999 it is the text \<^verbatim>\<open>YYYY-MM-DDTHH:mm:ss.sssZ\<close>, whose first 13 characters are the UTC
  day and the UTC hour. For every other year it is the expanded form
  \<^verbatim>\<open>+YYYYYY-MM-DDTHH:mm:ss.sssZ\<close> (or with \<^verbatim>\<open>-\<close>), whose first 13 characters are the sign,
  the year, the month and the day: the hour is cut off. The model keeps what the 13
  characters denote: the day number and the hour, or the day number alone. The year 0000
  begins at the time value \<open>- 62167219200000\<close> and the year 10000 at \<open>253402300800000\<close>.
  \<^verbatim>\<open>getHours()\<close> is the hour of the local time, \<^verbatim>\<open>NaN\<close> on an Invalid Date.
\<close>

datatype JSDate = TimeValue int | InvalidDate

datatype jserror = RangeError | TypeError

definition msPerHour :: int where "msPerHour = 3600000"
definition msPerDay :: int where "msPerDay = 86400000"

definition Day :: "int \<Rightarrow> int" where
  "Day t = t div msPerDay"

definition HourFromTime :: "int \<Rightarrow> int" where
  "HourFromTime t = (t div msPerHour) mod 24"

definition fourDigitYear :: "int \<Rightarrow> bool" where
  "fourDigitYear t \<longleftrightarrow> - 62167219200000 \<le> t \<and> t < 253402300800000"

datatype isoKey = HourKey int int | DayKey int

fun toISOString_slice13 :: "JSDate \<Rightarrow> jserror + isoKey" where
  "toISOString_slice13 (TimeValue t) =
     Inr (if fourDigitYear t then HourKey (Day t) (HourFromTime t) else DayKey (Day t))"
| "toISOString_slice13 InvalidDate = Inl RangeError"

fun getHours :: "(int \<Rightarrow> int) \<Rightarrow> JSDate \<Rightarrow> jsval" where
  "getHours tza (TimeValue t) = Number (of_int (HourFromTime (t + tza t)))"
| "getHours tza InvalidDate = NaN"

text \<open>The hour bucket in the words of the specification: the timestamp truncated to the
  hour, here the number of whole hours since the epoch.\<close>

fun truncatedToHour :: "JSDate \<Rightarrow> int option" where
  "truncatedToHour (TimeValue t) = Some (t div msPerHour)"
| "truncatedToHour InvalidDate = None"

text \<open>A valid date whose year has four digits, as the dates of a statement have.\<close>

fun fourDigitYearDate :: "JSDate \<Rightarrow> bool" where
  "fourDigitYearDate (TimeValue t) = fourDigitYear t"
| "fourDigitYearDate InvalidDate = False"

subsection \<open>Objects built by lodash\<close>

text \<open>
  \<^verbatim>\<open>_.groupBy\<close> fills a plain object: the key of each element is looked up, the element
  is pushed to the array found there, or a new property holding a one-element array is
  created. The object is modelled by its properties in creation order.
\<close>

type_synonym ('k, 'v) jsobject = "('k \<times> 'v) list"

fun assign :: "'k \<Rightarrow> 'a \<Rightarrow> ('k, 'a list) jsobject \<Rightarrow> ('k, 'a list) jsobject" where
  "assign k v [] = [(k, [v])]"
| "assign k v ((k', g) # rest) =
     (if k = k' then (k', g @ [v]) # rest else (k', g) # assign k v rest)"

definition groupBy :: "('a \<Rightarrow> 'k) \<Rightarrow> 'a list \<Rightarrow> ('k, 'a list) jsobject" where
  "groupBy iteratee xs = foldl (\<lambda>result x. assign (iteratee x) x result) [] xs"

text \<open>The same loop for an iteratee that may throw: the first exception ends it.\<close>

fun groupBy_throwing ::
  "('a \<Rightarrow> jserror + 'k) \<Rightarrow> 'a list \<Rightarrow> ('k, 'a list) jsobject \<Rightarrow> jserror + ('k, 'a list) jsobject"
where
  "groupBy_throwing iteratee [] result = Inr result"
| "groupBy_throwing iteratee (x # xs) result =
     (case iteratee x of
        Inl e \<Rightarrow> Inl e
      | Inr k \<Rightarrow> groupBy_throwing iteratee xs (assign k x result))"

text \<open>
  The properties of an object are enumerated with the array-index keys first, in
  ascending numeric order, then the other keys in creation order. \<open>idx\<close> tells which
  keys are array indices. \<^verbatim>\<open>_.filter\<close> on an object walks the properties in that order
  and returns an array of the values that pass: the keys are not part of the result. In the
  chains of the analyzer \<^verbatim>\<open>filter\<close> follows \<^verbatim>\<open>groupBy\<close>, so it is applied to the grouped
  object and \<^verbatim>\<open>value()\<close> is that array.
\<close>

definition ownPropertyOrder :: "('k \<Rightarrow> nat option) \<Rightarrow> ('k, 'v) jsobject \<Rightarrow> ('k, 'v) jsobject" where
  "ownPropertyOrder idx obj =
     sort_key (\<lambda>p. the (idx (fst p))) (filter (\<lambda>p. idx (fst p) \<noteq> None) obj)
     @ filter (\<lambda>p. idx (fst p) = None) obj"

definition lodash_filter :: "('k \<Rightarrow> nat option) \<Rightarrow> ('v \<Rightarrow> bool) \<Rightarrow> ('k, 'v) jsobject \<Rightarrow> 'v list" where
  "lodash_filter idx predicate obj = filter predicate (map snd (ownPropertyOrder idx obj))"

text \<open>
  An amount is a number, and its property key is the number as a string. That string is
  an array index when the number is an integer from 0 to \<open>2^32 - 2\<close>. The keys of the
  hour buckets hold a dash and are never array indices.
\<close>

definition arrayIndex :: "rat \<Rightarrow> nat option" where
  "arrayIndex a =
     (if a = of_int \<lfloor>a\<rfloor> \<and> 0 \<le> a \<and> a \<le> 4294967294 then Some (nat \<lfloor>a\<rfloor>) else None)"

definition noIndex :: "isoKey \<Rightarrow> nat option" where
  "noIndex k = None"

text \<open>Reading a property of an array by a number: the element at that index, or
  \<^verbatim>\<open>undefined\<close> (here \<open>None\<close>); and the keys of an array, as \<^verbatim>\<open>Object.keys\<close> lists them.\<close>

definition array_get :: "'a list \<Rightarrow> rat \<Rightarrow> 'a option" where
  "array_get xs k =
     (if k = of_int \<lfloor>k\<rfloor> \<and> 0 \<le> k \<and> nat \<lfloor>k\<rfloor> < length xs then Some (xs ! nat \<lfloor>k\<rfloor>) else None)"

definition Object_keys :: "'a list \<Rightarrow> rat list" where
  "Object_keys xs = map of_nat [0 ..< length xs]"

section \<open>The analyzer\<close>

record Transaction =
  date :: JSDate
  amount :: rat
  type :: string
  channel :: string
  balance :: rat

record TimeRange =
  start :: rat
  end' :: rat

record FraudThresholds =
  velocityLimit :: nat
  largeTransactionThreshold :: rat
  suspiciousTimeRange :: TimeRange

record BankAnalyzer =
  transactions :: "Transaction list"
  fraudThresholds :: FraudThresholds

text \<open>The constructor, lines 11 to 18.\<close>

definition new_BankAnalyzer :: "Transaction list \<Rightarrow> BankAnalyzer" where
  "new_BankAnalyzer txs =
     \<lparr> transactions = txs,
       fraudThresholds =
         \<lparr> velocityLimit = 5,
           largeTransactionThreshold = 500000,
           suspiciousTimeRange = \<lparr> start = 23, end' = 4 \<rparr> \<rparr> \<rparr>"

record Patterns =
  regularIncome :: "Transaction list list"
  recurringExpenses :: "Transaction list list"

text \<open>\<^verbatim>\<open>analyzeTransactionPatterns\<close>, lines 20 to 34.\<close>

definition analyzeTransactionPatterns :: "BankAnalyzer \<Rightarrow> Patterns" where
  "analyzeTransactionPatterns this =
     (let credits = filter (\<lambda>t. type t = ''Credit'') (transactions this);
          debits = filter (\<lambda>t. type t = ''Debit'') (transactions this)
      in \<lparr> regularIncome =
             lodash_filter arrayIndex (\<lambda>group. length group \<ge> 3) (groupBy amount credits),
           recurringExpenses =
             lodash_filter arrayIndex (\<lambda>group. length group \<ge> 2) (groupBy amount debits) \<rparr>)"

record FraudIndicators =
  highVelocity :: "Transaction list list"
  unusualTiming :: "Transaction list"

text \<open>\<^verbatim>\<open>detectFraudIndicators\<close>, lines 36 to 52. The grouping runs first, so an Invalid
  Date ends the method with the \<^verbatim>\<open>RangeError\<close> of \<^verbatim>\<open>toISOString\<close>.\<close>

definition detectFraudIndicators :: "(int \<Rightarrow> int) \<Rightarrow> BankAnalyzer \<Rightarrow> jserror + FraudIndicators" where
  "detectFraudIndicators tza this =
     (case groupBy_throwing (\<lambda>t. toISOString_slice13 (date t)) (transactions this) [] of
        Inl e \<Rightarrow> Inl e
      | Inr grouped \<Rightarrow>
          Inr \<lparr> highVelocity =
                  lodash_filter noIndex
                    (\<lambda>group. length group > velocityLimit (fraudThresholds this)) grouped,
                unusualTiming =
                  filter (\<lambda>t. let hour = getHours tza (date t)
                              in js_ge hour (start (suspiciousTimeRange (fraudThresholds this)))
                                 \<or> js_le hour (end' (suspiciousTimeRange (fraudThresholds this))))
                    (transactions this) \<rparr>)"

text \<open>A recommendation of \<^verbatim>\<open>crossSell\<close> holds \<^verbatim>\<open>product\<close>, \<^verbatim>\<open>confidence\<close> and
  \<^verbatim>\<open>reasoning\<close>; one of \<^verbatim>\<open>upSell\<close> holds \<^verbatim>\<open>product\<close>, \<^verbatim>\<open>eligibility\<close> and
  \<^verbatim>\<open>justification\<close>.\<close>

datatype Recommendation =
    CrossSell (product: string) (confidence: rat) (reasoning: string)
  | UpSell (product: string) (eligibility: rat) (justification: string)

record Opportunities =
  crossSell :: "Recommendation list"
  upSell :: "Recommendation list"

definition premiumCreditCard :: Recommendation where
  "premiumCreditCard =
     CrossSell ''Premium Credit Card'' (js_literal (8 / 10))
       ''High digital transaction usage indicates comfort with cards''"

definition mutualFundInvestment :: Recommendation where
  "mutualFundInvestment =
     CrossSell ''Mutual Fund Investment'' (js_literal (75 / 100))
       ''Maintains healthy average balance''"

definition premiumBankingAccount :: Recommendation where
  "premiumBankingAccount =
     UpSell ''Premium Banking Account'' (js_literal (9 / 10))
       ''High value transactions and balance maintenance''"

definition digitalChannels :: "string list" where
  "digitalChannels = [''Net Banking Transfer'', ''UPI'', ''Card'']"

definition averageBalance :: "BankAnalyzer \<Rightarrow> jsval" where
  "averageBalance this = lodash_mean (map balance (transactions this))"

definition maxBalance :: "BankAnalyzer \<Rightarrow> jsval" where
  "maxBalance this = lodash_max (map balance (transactions this))"

definition digitalTransactions :: "BankAnalyzer \<Rightarrow> jsval" where
  "digitalTransactions this =
     js_div (Number (of_nat (length (filter (\<lambda>t. channel t \<in> set digitalChannels)
                                      (transactions this)))))
            (length (transactions this))"

text \<open>\<^verbatim>\<open>analyzeBusinessOpportunities\<close>, lines 54 to 95: three \<^verbatim>\<open>if\<close> statements in
  a row, each pushing to one of the two arrays.\<close>

definition analyzeBusinessOpportunities :: "BankAnalyzer \<Rightarrow> Opportunities" where
  "analyzeBusinessOpportunities this =
     (let opportunities0 = \<lparr> crossSell = [], upSell = [] \<rparr>;
          opportunities1 =
            (if js_gt (digitalTransactions this) (js_literal (7 / 10))
             then opportunities0 \<lparr> crossSell := crossSell opportunities0 @ [premiumCreditCard] \<rparr>
             else opportunities0);
          opportunities2 =
            (if js_gt (averageBalance this) 100000
             then opportunities1 \<lparr> crossSell := crossSell opportunities1 @ [mutualFundInvestment] \<rparr>
             else opportunities1);
          opportunities3 =
            (if js_gt (maxBalance this) 500000
             then opportunities2 \<lparr> upSell := upSell opportunities2 @ [premiumBankingAccount] \<rparr>
             else opportunities2)
      in opportunities3)"

record AnalysisResult =
  patterns :: Patterns
  fraudIndicators :: FraudIndicators
  opportunities :: Opportunities

text \<open>The assembly of the result, lines 146 to 151: one analyzer, the three methods in
  turn. An exception of a method leaves no result.\<close>

definition analyze :: "(int \<Rightarrow> int) \<Rightarrow> Transaction list \<Rightarrow> jserror + AnalysisResult" where
  "analyze tza txs =
     (let analyzer = new_BankAnalyzer txs;
          p = analyzeTransactionPatterns analyzer
      in case detectFraudIndicators tza analyzer of
           Inl e \<Rightarrow> Inl e
         | Inr f \<Rightarrow>
             Inr \<lparr> patterns = p, fraudIndicators = f,
                   opportunities = analyzeBusinessOpportunities analyzer \<rparr>)"

section \<open>The analyzer on a store\<close>

text \<open>
  In the program the statement is an array object, each transaction is an object, and an
  array holds references to its elements. \<^verbatim>\<open>filter\<close> and \<^verbatim>\<open>map\<close> create a new array,
  \<^verbatim>\<open>groupBy\<close> creates an object and, for each new key, an array, and pushes every further
  element of a key to the array found under it; the recommendations are pushed to two empty
  arrays. Whether the statement given to the constructor is still the same after the three
  methods depends on which arrays these pushes reach. This section runs the methods on a
  store, where that is visible.

  A store is the list of the objects created so far. The address of an object is its
  position, and a new object is put at the end. Reading an address that holds another kind
  of object than the operation needs is the \<^verbatim>\<open>TypeError\<close> of the model; the constructor is
  given the array that \<^verbatim>\<open>processFile\<close> built (lines 122 to 131).
\<close>

type_synonym addr = nat

text \<open>The property keys that \<^verbatim>\<open>groupBy\<close> creates: an amount, or the first 13 characters
  of an ISO date.\<close>

datatype propertyKey = AmountKey rat | ISOKey isoKey

fun keyIndex :: "propertyKey \<Rightarrow> nat option" where
  "keyIndex (AmountKey a) = arrayIndex a"
| "keyIndex (ISOKey k) = noIndex k"

datatype cell =
    Row Transaction
  | Array "addr list"
  | Numbers "rat list"
  | Object "(propertyKey, addr) jsobject"
  | Recommendations "Recommendation list"

type_synonym store = "cell list"

definition load :: "store \<Rightarrow> addr \<Rightarrow> cell option" where
  "load s a = (if a < length s then Some (s ! a) else None)"

definition alloc :: "cell \<Rightarrow> store \<Rightarrow> addr \<times> store" where
  "alloc c s = (length s, s @ [c])"

fun loadRow :: "store \<Rightarrow> addr \<Rightarrow> jserror + Transaction" where
  "loadRow s a = (case load s a of Some (Row t) \<Rightarrow> Inr t | _ \<Rightarrow> Inl TypeError)"

fun loadArray :: "store \<Rightarrow> addr \<Rightarrow> jserror + addr list" where
  "loadArray s a = (case load s a of Some (Array xs) \<Rightarrow> Inr xs | _ \<Rightarrow> Inl TypeError)"

fun loadObject :: "store \<Rightarrow> addr \<Rightarrow> jserror + (propertyKey, addr) jsobject" where
  "loadObject s a = (case load s a of Some (Object props) \<Rightarrow> Inr props | _ \<Rightarrow> Inl TypeError)"

fun loadNumbers :: "store \<Rightarrow> addr \<Rightarrow> jserror + rat list" where
  "loadNumbers s a = (case load s a of Some (Numbers xs) \<Rightarrow> Inr xs | _ \<Rightarrow> Inl TypeError)"

fun loadRecommendations :: "store \<Rightarrow> addr \<Rightarrow> jserror + Recommendation list" where
  "loadRecommendations s a =
     (case load s a of Some (Recommendations rs) \<Rightarrow> Inr rs | _ \<Rightarrow> Inl TypeError)"

text \<open>The objects behind a list of references.\<close>

fun loadRows :: "store \<Rightarrow> addr list \<Rightarrow> jserror + Transaction list" where
  "loadRows s [] = Inr []"
| "loadRows s (a # as) =
     (case loadRow s a of
        Inl e \<Rightarrow> Inl e
      | Inr t \<Rightarrow> (case loadRows s as of Inl e \<Rightarrow> Inl e | Inr ts \<Rightarrow> Inr (t # ts)))"

fun loadArrays :: "store \<Rightarrow> addr list \<Rightarrow> jserror + addr list list" where
  "loadArrays s [] = Inr []"
| "loadArrays s (a # as) =
     (case loadArray s a of
        Inl e \<Rightarrow> Inl e
      | Inr g \<Rightarrow> (case loadArrays s as of Inl e \<Rightarrow> Inl e | Inr gs \<Rightarrow> Inr (g # gs)))"

text \<open>What an array of transactions, and an array of such arrays, holds in a store.\<close>

definition rowsAt :: "store \<Rightarrow> addr \<Rightarrow> jserror + Transaction list" where
  "rowsAt s a = (case loadArray s a of Inl e \<Rightarrow> Inl e | Inr xs \<Rightarrow> loadRows s xs)"

fun rowsOfAll :: "store \<Rightarrow> addr list \<Rightarrow> jserror + Transaction list list" where
  "rowsOfAll s [] = Inr []"
| "rowsOfAll s (a # as) =
     (case rowsAt s a of
        Inl e \<Rightarrow> Inl e
      | Inr g \<Rightarrow> (case rowsOfAll s as of Inl e \<Rightarrow> Inl e | Inr gs \<Rightarrow> Inr (g # gs)))"

definition groupsAt :: "store \<Rightarrow> addr \<Rightarrow> jserror + Transaction list list" where
  "groupsAt s a = (case loadArray s a of Inl e \<Rightarrow> Inl e | Inr gs \<Rightarrow> rowsOfAll s gs)"

subsection \<open>Array methods\<close>

text \<open>\<^verbatim>\<open>array.filter(callback)\<close> for a callback that reads the element: a new array of
  the references whose object passes. \<^verbatim>\<open>array.map(t => t.balance)\<close>: a new array of
  numbers. \<^verbatim>\<open>array.push(r)\<close> on an array of recommendations changes that array in place.\<close>

definition Array_filter :: "(Transaction \<Rightarrow> bool) \<Rightarrow> addr \<Rightarrow> store \<Rightarrow> jserror + addr \<times> store" where
  "Array_filter callback array s =
     (case loadArray s array of
        Inl e \<Rightarrow> Inl e
      | Inr xs \<Rightarrow>
          (case loadRows s xs of
             Inl e \<Rightarrow> Inl e
           | Inr ts \<Rightarrow>
               Inr (alloc (Array (map fst (filter (\<lambda>p. callback (snd p)) (zip xs ts)))) s)))"

definition Array_map :: "(Transaction \<Rightarrow> rat) \<Rightarrow> addr \<Rightarrow> store \<Rightarrow> jserror + addr \<times> store" where
  "Array_map callback array s =
     (case rowsAt s array of
        Inl e \<Rightarrow> Inl e
      | Inr ts \<Rightarrow> Inr (alloc (Numbers (map callback ts)) s))"

definition Array_push :: "addr \<Rightarrow> Recommendation \<Rightarrow> store \<Rightarrow> jserror + store" where
  "Array_push array r s =
     (case loadRecommendations s array of
        Inl e \<Rightarrow> Inl e
      | Inr rs \<Rightarrow> Inr (s[array := Recommendations (rs @ [r])]))"

subsection \<open>The lodash chains\<close>

text \<open>
  One round of the loop of \<^verbatim>\<open>groupBy\<close> (\<^verbatim>\<open>arrayAggregator\<close> of lodash with the setter of
  \<^verbatim>\<open>groupBy\<close>): the element at \<^verbatim>\<open>index\<close> is read from the array as it is now, its key is
  computed, and either the element is pushed to the array that the result object holds under
  the key, or a new one-element array is created and stored under the key.
\<close>

definition groupBy_round ::
  "(Transaction \<Rightarrow> jserror + propertyKey) \<Rightarrow> addr \<Rightarrow> addr \<Rightarrow> nat \<Rightarrow> store \<Rightarrow> jserror + store"
where
  "groupBy_round iteratee array result index s =
     (case loadArray s array of
        Inl e \<Rightarrow> Inl e
      | Inr xs \<Rightarrow>
          if length xs \<le> index then Inl TypeError
          else
            (case loadRow s (xs ! index) of
               Inl e \<Rightarrow> Inl e
             | Inr t \<Rightarrow>
                 (case iteratee t of
                    Inl e \<Rightarrow> Inl e
                  | Inr key \<Rightarrow>
                      (case loadObject s result of
                         Inl e \<Rightarrow> Inl e
                       | Inr props \<Rightarrow>
                           (case map_of props key of
                              Some bucket \<Rightarrow>
                                (case loadArray s bucket of
                                   Inl e \<Rightarrow> Inl e
                                 | Inr members \<Rightarrow>
                                     Inr (s[bucket := Array (members @ [xs ! index])]))
                            | None \<Rightarrow>
                                (case alloc (Array [xs ! index]) s of
                                   (bucket, s') \<Rightarrow>
                                     Inr (s'[result := Object (props @ [(key, bucket)])])))))))"

fun groupBy_loop ::
  "(Transaction \<Rightarrow> jserror + propertyKey) \<Rightarrow> addr \<Rightarrow> addr \<Rightarrow> nat list \<Rightarrow> store \<Rightarrow> jserror + store"
where
  "groupBy_loop iteratee array result [] s = Inr s"
| "groupBy_loop iteratee array result (index # indices) s =
     (case groupBy_round iteratee array result index s of
        Inl e \<Rightarrow> Inl e
      | Inr s' \<Rightarrow> groupBy_loop iteratee array result indices s')"

text \<open>\<^verbatim>\<open>groupBy\<close>: the result object is created empty, the length of the array is read
  once, and the loop runs over the indices below it.\<close>

definition groupBy_store ::
  "(Transaction \<Rightarrow> jserror + propertyKey) \<Rightarrow> addr \<Rightarrow> store \<Rightarrow> jserror + addr \<times> store"
where
  "groupBy_store iteratee array s =
     (case alloc (Object []) s of
        (result, s') \<Rightarrow>
          (case loadArray s' array of
             Inl e \<Rightarrow> Inl e
           | Inr xs \<Rightarrow>
               (case groupBy_loop iteratee array result [0 ..< length xs] s' of
                  Inl e \<Rightarrow> Inl e
                | Inr s'' \<Rightarrow> Inr (result, s''))))"

text \<open>\<^verbatim>\<open>_.filter\<close> on the grouped object: a new array of the references to the groups
  that pass, in the order of the properties.\<close>

definition lodash_filter_store ::
  "(addr list \<Rightarrow> bool) \<Rightarrow> addr \<Rightarrow> store \<Rightarrow> jserror + addr \<times> store"
where
  "lodash_filter_store predicate object s =
     (case loadObject s object of
        Inl e \<Rightarrow> Inl e
      | Inr props \<Rightarrow>
          (case loadArrays s (map snd (ownPropertyOrder keyIndex props)) of
             Inl e \<Rightarrow> Inl e
           | Inr groups \<Rightarrow>
               Inr (alloc (Array (map fst (filter (\<lambda>p. predicate (snd p))
                                     (zip (map snd (ownPropertyOrder keyIndex props)) groups)))) s)))"

subsection \<open>The methods\<close>

text \<open>The analyzer object holds a reference to the statement.\<close>

record BankAnalyzerObject =
  transactionsRef :: addr
  fraudThresholdsOf :: FraudThresholds

definition new_BankAnalyzerObject :: "addr \<Rightarrow> BankAnalyzerObject" where
  "new_BankAnalyzerObject array =
     \<lparr> transactionsRef = array,
       fraudThresholdsOf =
         \<lparr> velocityLimit = 5,
           largeTransactionThreshold = 500000,
           suspiciousTimeRange = \<lparr> start = 23, end' = 4 \<rparr> \<rparr> \<rparr>"

record PatternsRefs =
  regularIncomeRef :: addr
  recurringExpensesRef :: addr

definition analyzeTransactionPatterns_store ::
  "BankAnalyzerObject \<Rightarrow> store \<Rightarrow> jserror + PatternsRefs \<times> store"
where
  "analyzeTransactionPatterns_store this s0 =
     (case Array_filter (\<lambda>t. type t = ''Credit'') (transactionsRef this) s0 of
        Inl e \<Rightarrow> Inl e
      | Inr (credits, s1) \<Rightarrow>
     (case Array_filter (\<lambda>t. type t = ''Debit'') (transactionsRef this) s1 of
        Inl e \<Rightarrow> Inl e
      | Inr (debits, s2) \<Rightarrow>
     (case groupBy_store (\<lambda>t. Inr (AmountKey (amount t))) credits s2 of
        Inl e \<Rightarrow> Inl e
      | Inr (grouped, s3) \<Rightarrow>
     (case lodash_filter_store (\<lambda>group. length group \<ge> 3) grouped s3 of
        Inl e \<Rightarrow> Inl e
      | Inr (income, s4) \<Rightarrow>
     (case groupBy_store (\<lambda>t. Inr (AmountKey (amount t))) debits s4 of
        Inl e \<Rightarrow> Inl e
      | Inr (grouped', s5) \<Rightarrow>
     (case lodash_filter_store (\<lambda>group. length group \<ge> 2) grouped' s5 of
        Inl e \<Rightarrow> Inl e
      | Inr (expenses, s6) \<Rightarrow>
          Inr (\<lparr> regularIncomeRef = income, recurringExpensesRef = expenses \<rparr>, s6)))))))"

record FraudIndicatorsRefs =
  highVelocityRef :: addr
  unusualTimingRef :: addr

definition detectFraudIndicators_store ::
  "(int \<Rightarrow> int) \<Rightarrow> BankAnalyzerObject \<Rightarrow> store \<Rightarrow> jserror + FraudIndicatorsRefs \<times> store"
where
  "detectFraudIndicators_store tza this s0 =
     (case groupBy_store (\<lambda>t. map_sum id ISOKey (toISOString_slice13 (date t)))
             (transactionsRef this) s0 of
        Inl e \<Rightarrow> Inl e
      | Inr (grouped, s1) \<Rightarrow>
     (case lodash_filter_store
             (\<lambda>group. length group > velocityLimit (fraudThresholdsOf this)) grouped s1 of
        Inl e \<Rightarrow> Inl e
      | Inr (velocity, s2) \<Rightarrow>
     (case Array_filter
             (\<lambda>t. let hour = getHours tza (date t)
                  in js_ge hour (start (suspiciousTimeRange (fraudThresholdsOf this)))
                     \<or> js_le hour (end' (suspiciousTimeRange (fraudThresholdsOf this))))
             (transactionsRef this) s2 of
        Inl e \<Rightarrow> Inl e
      | Inr (timing, s3) \<Rightarrow>
          Inr (\<lparr> highVelocityRef = velocity, unusualTimingRef = timing \<rparr>, s3))))"

record OpportunitiesRefs =
  crossSellRef :: addr
  upSellRef :: addr

definition analyzeBusinessOpportunities_store ::
  "BankAnalyzerObject \<Rightarrow> store \<Rightarrow> jserror + OpportunitiesRefs \<times> store"
where
  "analyzeBusinessOpportunities_store this s0 =
     (case Array_map balance (transactionsRef this) s0 of
        Inl e \<Rightarrow> Inl e
      | Inr (balances, s1) \<Rightarrow>
     (case loadNumbers s1 balances of
        Inl e \<Rightarrow> Inl e
      | Inr bs \<Rightarrow>
     (case Array_map balance (transactionsRef this) s1 of
        Inl e \<Rightarrow> Inl e
      | Inr (balances', s2) \<Rightarrow>
     (case loadNumbers s2 balances' of
        Inl e \<Rightarrow> Inl e
      | Inr bs' \<Rightarrow>
     (case Array_filter (\<lambda>t. channel t \<in> set digitalChannels) (transactionsRef this) s2 of
        Inl e \<Rightarrow> Inl e
      | Inr (digital, s3) \<Rightarrow>
     (case loadArray s3 digital of
        Inl e \<Rightarrow> Inl e
      | Inr ds \<Rightarrow>
     (case loadArray s3 (transactionsRef this) of
        Inl e \<Rightarrow> Inl e
      | Inr xs \<Rightarrow>
     (case alloc (Recommendations []) s3 of
        (cross, s4) \<Rightarrow>
     (case alloc (Recommendations []) s4 of
        (up, s5) \<Rightarrow>
     (case (if js_gt (js_div (Number (of_nat (length ds))) (length xs)) (js_literal (7 / 10))
            then Array_push cross premiumCreditCard s5 else Inr s5) of
        Inl e \<Rightarrow> Inl e
      | Inr s6 \<Rightarrow>
     (case (if js_gt (lodash_mean bs) 100000
            then Array_push cross mutualFundInvestment s6 else Inr s6) of
        Inl e \<Rightarrow> Inl e
      | Inr s7 \<Rightarrow>
     (case (if js_gt (lodash_max bs') 500000
            then Array_push up premiumBankingAccount s7 else Inr s7) of
        Inl e \<Rightarrow> Inl e
      | Inr s8 \<Rightarrow>
          Inr (\<lparr> crossSellRef = cross, upSellRef = up \<rparr>, s8)))))))))))))"

text \<open>The assembly of the result, lines 146 to 151, on the store.\<close>

record AnalysisResultRefs =
  patternsRefs :: PatternsRefs
  fraudIndicatorsRefs :: FraudIndicatorsRefs
  opportunitiesRefs :: OpportunitiesRefs

definition analyze_store ::
  "(int \<Rightarrow> int) \<Rightarrow> addr \<Rightarrow> store \<Rightarrow> jserror + AnalysisResultRefs \<times> store"
where
  "analyze_store tza array s0 =
     (let analyzer = new_BankAnalyzerObject array
      in case analyzeTransactionPatterns_store analyzer s0 of
           Inl e \<Rightarrow> Inl e
         | Inr (p, s1) \<Rightarrow>
        (case detectFraudIndicators_store tza analyzer s1 of
           Inl e \<Rightarrow> Inl e
         | Inr (f, s2) \<Rightarrow>
        (case analyzeBusinessOpportunities_store analyzer s2 of
           Inl e \<Rightarrow> Inl e
         | Inr (opp, s3) \<Rightarrow>
             Inr (\<lparr> patternsRefs = p, fraudIndicatorsRefs = f, opportunitiesRefs = opp \<rparr>, s3))))"

text \<open>What the references of a result hold in a store.\<close>

definition resultAt :: "store \<Rightarrow> AnalysisResultRefs \<Rightarrow> jserror + AnalysisResult" where
  "resultAt s r =
     (case groupsAt s (regularIncomeRef (patternsRefs r)) of Inl e \<Rightarrow> Inl e | Inr income \<Rightarrow>
     (case groupsAt s (recurringExpensesRef (patternsRefs r)) of Inl e \<Rightarrow> Inl e | Inr expenses \<Rightarrow>
     (case groupsAt s (highVelocityRef (fraudIndicatorsRefs r)) of Inl e \<Rightarrow> Inl e | Inr velocity \<Rightarrow>
     (case rowsAt s (unusualTimingRef (fraudIndicatorsRefs r)) of Inl e \<Rightarrow> Inl e | Inr timing \<Rightarrow>
     (case loadRecommendations s (crossSellRef (opportunitiesRefs r)) of Inl e \<Rightarrow> Inl e | Inr cross \<Rightarrow>
     (case loadRecommendations s (upSellRef (opportunitiesRefs r)) of Inl e \<Rightarrow> Inl e | Inr up \<Rightarrow>
        Inr \<lparr> patterns = \<lparr> regularIncome = income, recurringExpenses = expenses \<rparr>,
              fraudIndicators = \<lparr> highVelocity = velocity, unusualTiming = timing \<rparr>,
              opportunities = \<lparr> crossSell = cross, upSell = up \<rparr> \<rparr>))))))"

subsection \<open>The store after a grouping\<close>

text \<open>
  \<^verbatim>\<open>groupBy\<close> leaves the store it found and, behind it, the result object followed by
  the arrays of the groups in the order of their creation: the property of the \<open>i\<close>-th
  key holds the address of the \<open>i\<close>-th array behind the object. \<open>G\<close> is the grouping
  of the pairs of a reference and the transaction it refers to.
\<close>

fun numbered :: "nat \<Rightarrow> 'k list \<Rightarrow> ('k \<times> nat) list" where
  "numbered b [] = []"
| "numbered b (k # ks) = (k, b) # numbered (Suc b) ks"

definition groupedStore ::
  "store \<Rightarrow> (propertyKey, (addr \<times> Transaction) list) jsobject \<Rightarrow> store" where
  "groupedStore s G =
     s @ Object (numbered (Suc (length s)) (map fst G)) # map (\<lambda>p. Array (map fst (snd p))) G"

section \<open>Example statements\<close>

text \<open>A row of the sheet as \<^verbatim>\<open>processFile\<close> builds it (lines 124 to 130), with a valid
  date given by its time value.\<close>

definition transaction :: "int \<Rightarrow> rat \<Rightarrow> string \<Rightarrow> string \<Rightarrow> rat \<Rightarrow> Transaction" where
  "transaction tv a ty ch b =
     \<lparr> date = TimeValue tv, amount = a, type = ty, channel = ch, balance = b \<rparr>"

text \<open>Three salary credits of 50000 on the first of January, February and March 2024, and
  one debit of 1200 that occurs twice.\<close>

definition salaryScenario :: "Transaction list" where
  "salaryScenario =
     [ transaction 1704103200000 50000 ''Credit'' ''Net Banking Transfer'' 60000,
       transaction 1704448800000 1200 ''Debit'' ''UPI'' 58800,
       transaction 1706781600000 50000 ''Credit'' ''Net Banking Transfer'' 108800,
       transaction 1704448800000 1200 ''Debit'' ''UPI'' 58800,
       transaction 1709287200000 50000 ''Credit'' ''Net Banking Transfer'' 157600 ]"

text \<open>Six transactions between 10:00 and 10:59 UTC of 15 January 2024, and a seventh at
  11:00.\<close>

definition burstScenario :: "Transaction list" where
  "burstScenario =
     [ transaction 1705312800000 100 ''Debit'' ''UPI'' 9900,
       transaction 1705313400000 200 ''Debit'' ''UPI'' 9700,
       transaction 1705314000000 300 ''Debit'' ''Card'' 9400,
       transaction 1705314600000 400 ''Debit'' ''UPI'' 9000,
       transaction 1705315200000 500 ''Debit'' ''ATM'' 8500,
       transaction 1705316340000 600 ''Debit'' ''UPI'' 7900,
       transaction 1705316400000 700 ''Debit'' ''UPI'' 7200 ]"

text \<open>Transactions at the local hours 23, 0, 4, 5, 22 and 23 of a host five and a half
  hours ahead of UTC.\<close>

definition nightScenario :: "Transaction list" where
  "nightScenario =
     [ transaction 1705339800000 100 ''Debit'' ''UPI'' 9900,
       transaction 1705343400000 200 ''Debit'' ''UPI'' 9700,
       transaction 1705361340000 300 ''Debit'' ''Card'' 9400,
       transaction 1705361400000 400 ''Debit'' ''UPI'' 9000,
       transaction 1705422600000 500 ''Debit'' ''ATM'' 8500,
       transaction 1705426200000 600 ''Credit'' ''UPI'' 9100 ]"

text \<open>Five transactions, four of them on digital channels, with a mean balance of 150000
  and a greatest balance of 600000.\<close>

definition affluentScenario :: "Transaction list" where
  "affluentScenario =
     [ transaction 1705312800000 1000 ''Credit'' ''UPI'' 600000,
       transaction 1705399200000 2000 ''Debit'' ''Card'' 50000,
       transaction 1705485600000 3000 ''Debit'' ''Net Banking Transfer'' 40000,
       transaction 1705572000000 4000 ''Debit'' ''ATM'' 30000,
       transaction 1705658400000 5000 ''Debit'' ''UPI'' 30000 ]"

text \<open>Eight transactions within half an hour, four before 11:00 UTC and four from 11:00 on.\<close>

definition splitBurstScenario :: "Transaction list" where
  "splitBurstScenario =
     [ transaction 1705315500000 100 ''Debit'' ''UPI'' 9900,
       transaction 1705315800000 200 ''Debit'' ''UPI'' 9700,
       transaction 1705316100000 300 ''Debit'' ''Card'' 9400,
       transaction 1705316340000 400 ''Debit'' ''UPI'' 9000,
       transaction 1705316400000 500 ''Debit'' ''UPI'' 8500,
       transaction 1705316700000 600 ''Debit'' ''UPI'' 7900,
       transaction 1705317000000 700 ''Debit'' ''Card'' 7200,
       transaction 1705317240000 800 ''Debit'' ''UPI'' 6400 ]"

text \<open>Two debits of one amount, a month apart.\<close>

definition twoDebits :: "Transaction list" where
  "twoDebits =
     [ transaction 1704448800000 1200 ''Debit'' ''UPI'' 58800,
       transaction 1707127200000 1200 ''Debit'' ''UPI'' 57600 ]"

text \<open>Six transactions between 17:30 and 17:55 UTC of 15 January 2024, one of them of a type
  that is neither Credit nor Debit.\<close>

definition reversal :: Transaction where
  "reversal = transaction 1705340100000 1200 ''Reversal'' ''UPI'' 600000"

definition otherTypeScenario :: "Transaction list" where
  "otherTypeScenario =
     [ transaction 1705339800000 1200 ''Debit'' ''UPI'' 1200,
       reversal,
       transaction 1705340400000 1200 ''Debit'' ''Card'' 1200,
       transaction 1705340700000 700 ''Credit'' ''UPI'' 1200,
       transaction 1705341000000 700 ''Credit'' ''UPI'' 1200,
       transaction 1705341300000 700 ''Credit'' ''UPI'' 1200 ]"

text \<open>Six transactions of 1 January 10000, at 0:00, 2:00, 4:00, 6:00, 8:00 and 10:00 UTC.\<close>

definition expandedYearScenario :: "Transaction list" where
  "expandedYearScenario =
     [ transaction 253402300800000 100 ''Debit'' ''UPI'' 9900,
       transaction 253402308000000 200 ''Debit'' ''UPI'' 9700,
       transaction 253402315200000 300 ''Debit'' ''Card'' 9400,
       transaction 253402322400000 400 ''Debit'' ''UPI'' 9000,
       transaction 253402329600000 500 ''Debit'' ''UPI'' 8500,
       transaction 253402336800000 600 ''Debit'' ''UPI'' 7900 ]"

text \<open>Six transactions of 31 December of the year before the year 0000, two hours apart
  from 0:00 UTC on.\<close>

definition negativeYearScenario :: "Transaction list" where
  "negativeYearScenario =
     [ transaction (- 62167305600000) 100 ''Debit'' ''UPI'' 9900,
       transaction (- 62167298400000) 200 ''Debit'' ''UPI'' 9700,
       transaction (- 62167291200000) 300 ''Debit'' ''Card'' 9400,
       transaction (- 62167284000000) 400 ''Debit'' ''UPI'' 9000,
       transaction (- 62167276800000) 500 ''Debit'' ''UPI'' 8500,
       transaction (- 62167269600000) 600 ''Debit'' ''UPI'' 7900 ]"

text \<open>Three transactions on a channel that is not digital, with the balances 171046.67,
  6568.34 and 122384.99 (the doubles that these literals denote), and the same three with
  the last two exchanged.\<close>

definition roundingScenario :: "Transaction list" where
  "roundingScenario =
     [ transaction 1705312800000 5000 ''Debit'' ''ATM'' (js_literal (17104667 / 100)),
       transaction 1705399200000 164478 ''Debit'' ''ATM'' (js_literal (656834 / 100)),
       transaction 1705485600000 115817 ''Credit'' ''ATM'' (js_literal (12238499 / 100)) ]"

definition roundingScenarioPermuted :: "Transaction list" where
  "roundingScenarioPermuted =
     [ transaction 1705312800000 5000 ''Debit'' ''ATM'' (js_literal (17104667 / 100)),
       transaction 1705485600000 115817 ''Credit'' ''ATM'' (js_literal (12238499 / 100)),
       transaction 1705399200000 164478 ''Debit'' ''ATM'' (js_literal (656834 / 100)) ]"

text \<open>A store that holds the six transactions of the statement with the Reversal at the
  addresses 0 to 5 and the array of them at the address 6, and the same store after the
  three methods.\<close>

definition otherTypeStore :: store where
  "otherTypeStore = map Row otherTypeScenario @ [Array [0, 1, 2, 3, 4, 5] ]"

definition otherTypeStoreAfter :: store where
  "otherTypeStoreAfter =
     otherTypeStore @
     [Array [3, 4, 5], Array [0, 2],
      Object [(AmountKey 700, 10)], Array [3, 4, 5], Array [10],
      Object [(AmountKey 1200, 13)], Array [0, 2], Array [13],
      Object [(ISOKey (HourKey 19737 17), 16)], Array [0, 1, 2, 3, 4, 5], Array [16],
      Array [0, 1, 2, 3, 4, 5],
      Numbers [1200, 600000, 1200, 1200, 1200, 1200],
      Numbers [1200, 600000, 1200, 1200, 1200, 1200],
      Array [0, 1, 2, 3, 4, 5],
      Recommendations [premiumCreditCard, mutualFundInvestment],
      Recommendations [premiumBankingAccount] ]"

section \<open>Rounding to double precision\<close>

lemma bitLength_bounds:
  "0 < n \<Longrightarrow> 2 ^ (bitLength n - 1) \<le> n \<and> n < 2 ^ bitLength n"
proof (induction n rule: bitLength.induct)
  case (1 n)
  show ?case
  proof (cases "n div 2 = 0")
    case True
    with "1.prems" have "n = 1" by (simp add: div_eq_0_iff) 
    then show ?thesis by (simp add: bitLength.simps)
  next
    case False
    then have pos: "0 < n div 2" by simp
    have n0: "n \<noteq> 0" using "1.prems" by simp
    let ?b = "bitLength (n div 2)"
    have ih: "2 ^ (?b - 1) \<le> n div 2" "n div 2 < 2 ^ ?b"
      using "1.IH" [OF n0 pos] by simp_all
    have b: "0 < ?b" using pos by (simp add: bitLength.simps [of "n div 2"])
    have bl: "bitLength n = Suc ?b" using n0 by (simp add: bitLength.simps [of n])
    have "(2::nat) ^ ?b = 2 * 2 ^ (?b - 1)" using b by (cases ?b) simp_all
    also have "\<dots> \<le> 2 * (n div 2)" using ih(1) by simp
    also have "\<dots> \<le> n" by simp
    finally have lo: "2 ^ ?b \<le> n" .
    have "n < 2 * (n div 2) + 2" by presburger
    also have "\<dots> \<le> 2 * 2 ^ ?b" using ih(2) by simp
    finally have hi: "n < 2 ^ Suc ?b" by simp
    from lo hi show ?thesis by (simp add: bl)
  qed
qed

lemma exponent_bounds:
  assumes "0 < x"
  shows "2 powi exponent x \<le> x \<and> x < 2 powi (exponent x + 1)"
proof (cases "1 \<le> x")
  case True
  define m where "m = nat \<lfloor>x\<rfloor>"
  have m1: "0 < m" using True by (simp add: m_def)
  have fl0: "0 \<le> \<lfloor>x\<rfloor>" using True by simp
  have mx: "rat_of_nat m \<le> x" "x < rat_of_nat m + 1"
  proof -
    have "rat_of_nat m = rat_of_int \<lfloor>x\<rfloor>" using fl0 by (simp add: m_def)
    then show "rat_of_nat m \<le> x" "x < rat_of_nat m + 1" by linarith+
  qed
  note bb = bitLength_bounds [OF m1]
  have bpos: "0 < bitLength m" using m1 by (simp add: bitLength.simps [of m])
  have e: "exponent x = int (bitLength m - 1)"
    using True bpos by (simp add: exponent_def m_def [symmetric] of_nat_diff)
  have lo: "(2::rat) ^ (bitLength m - 1) \<le> x"
  proof -
    have "(2::rat) ^ (bitLength m - 1) = rat_of_nat (2 ^ (bitLength m - 1))" by simp
    also have "\<dots> \<le> rat_of_nat m" using bb by (simp only: of_nat_le_iff)
    finally show ?thesis using mx(1) by linarith
  qed
  have hi: "x < (2::rat) ^ bitLength m"
  proof -
    have "Suc m \<le> 2 ^ bitLength m" using bb by simp
    then have "rat_of_nat (Suc m) \<le> rat_of_nat (2 ^ bitLength m)" by (simp only: of_nat_le_iff)
    then have "rat_of_nat m + 1 \<le> 2 ^ bitLength m" by simp
    then show ?thesis using mx(2) by linarith
  qed
  have e1: "exponent x + 1 = int (bitLength m)" using e bpos by simp
  show ?thesis
    unfolding e1 unfolding e using lo hi by simp
next
  case False
  then have x1: "x < 1" by simp
  define y where "y = 1 / x"
  have y1: "1 < y" using assms x1 by (simp add: y_def)
  define m where "m = nat (\<lceil>y\<rceil> - 1)"
  have c2: "2 \<le> \<lceil>y\<rceil>" using y1 by (simp add: le_ceiling_iff) 
  have m1: "0 < m" using c2 by (simp add: m_def)
  have my: "rat_of_nat m < y" "y \<le> rat_of_nat m + 1"
  proof -
    have "rat_of_int (\<lceil>y\<rceil> - 1) < y" by linarith
    moreover have "rat_of_nat m = rat_of_int (\<lceil>y\<rceil> - 1)"
      using c2 by (simp add: m_def)
    ultimately show "rat_of_nat m < y" by simp
    have "y \<le> rat_of_int \<lceil>y\<rceil>" by simp
    moreover have "rat_of_nat m + 1 = rat_of_int \<lceil>y\<rceil>"
      using c2 by (simp add: m_def)
    ultimately show "y \<le> rat_of_nat m + 1" by simp
  qed
  note bb = bitLength_bounds [OF m1]
  let ?f = "bitLength m"
  have fpos: "0 < ?f" using m1 by (simp add: bitLength.simps [of m])
  have e: "exponent x = - int ?f"
    using False by (simp add: exponent_def m_def y_def)
  have lo: "(2::rat) ^ (?f - 1) < y"
  proof -
    have "(2::rat) ^ (?f - 1) = rat_of_nat (2 ^ (?f - 1))" by simp
    also have "\<dots> \<le> rat_of_nat m" using bb by (simp only: of_nat_le_iff)
    finally show ?thesis using my(1) by linarith
  qed
  have hi: "y \<le> (2::rat) ^ ?f"
  proof -
    have "Suc m \<le> 2 ^ ?f" using bb by simp
    then have "rat_of_nat (Suc m) \<le> rat_of_nat (2 ^ ?f)" by (simp only: of_nat_le_iff)
    then have "rat_of_nat m + 1 \<le> 2 ^ ?f" by simp
    then show ?thesis using my(2) by linarith
  qed
  have xy: "x = 1 / y" using assms by (simp add: y_def)
  have p1: "2 powi (- int ?f) = 1 / (2::rat) ^ ?f"
    by (simp add: power_int_minus field_simps)
  have p2: "2 powi (- int ?f + 1) = 1 / (2::rat) ^ (?f - 1)"
  proof -
    have "- int ?f + 1 = - int (?f - 1)" using fpos by simp
    then have "2 powi (- int ?f + 1) = (2::rat) powi (- int (?f - 1))" by (simp only:)
    also have "\<dots> = inverse (2 ^ (?f - 1))" by (simp only: power_int_minus power_int_of_nat)
    finally show ?thesis by (simp add: inverse_eq_divide)
  qed
  have a: "1 / (2::rat) ^ ?f \<le> x"
    unfolding xy using hi y1 by (simp add: frac_le)
  have b: "x < 1 / (2::rat) ^ (?f - 1)"
    unfolding xy using lo by (simp add: frac_less2)
  show ?thesis unfolding e p1 p2 using a b by simp
qed

lemma exponent_eqI:
  assumes "2 powi e \<le> x" "x < 2 powi (e + 1)"
  shows "exponent x = e"
proof -
  have x: "0 < x" using assms(1) by (smt (verit) zero_less_power_int zero_less_numeral less_le_trans)
  note b = exponent_bounds [OF x]
  have "e < exponent x + 1"
  proof (rule ccontr)
    assume "\<not> e < exponent x + 1"
    then have "(2::rat) powi (exponent x + 1) \<le> 2 powi e"
      by (intro power_int_increasing) simp_all
    with b assms show False by linarith
  qed
  moreover have "exponent x < e + 1"
  proof (rule ccontr)
    assume "\<not> exponent x < e + 1"
    then have "(2::rat) powi (e + 1) \<le> 2 powi exponent x"
      by (intro power_int_increasing) simp_all
    with b assms show False by linarith
  qed
  ultimately show ?thesis by simp
qed

lemma roundTiesToEven_error: "\<bar>of_int (roundTiesToEven y) - y\<bar> \<le> 1 / 2"
proof -
  have "0 \<le> y - of_int \<lfloor>y\<rfloor>" "y - of_int \<lfloor>y\<rfloor> < 1" by linarith+
  then show ?thesis
    unfolding roundTiesToEven_def Let_def by (auto simp: abs_if; linarith)
qed

lemma roundTiesToEven_eqI:
  assumes "\<bar>y - of_int n\<bar> < 1 / 2"
  shows "roundTiesToEven y = n"
proof -
  have "\<bar>rat_of_int (roundTiesToEven y) - of_int n\<bar> < 1"
    using roundTiesToEven_error [of y] assms by linarith
  then have "\<bar>rat_of_int (roundTiesToEven y - n)\<bar> < 1" by simp
  then have "\<bar>roundTiesToEven y - n\<bar> < 1"
    by (metis of_int_abs of_int_less_1_iff)
  then show ?thesis by simp
qed

lemma roundTiesToEven_of_int [simp]: "roundTiesToEven (of_int n) = n"
  by (rule roundTiesToEven_eqI) simp

lemma toDouble_eqI:
  assumes "2 powi e \<le> x" "x < 2 powi (e + 1)" "q = max (e - 52) (- 1074)"
    and "\<bar>x / 2 powi q - of_int n\<bar> < 1 / 2" and "r = of_int n * 2 powi q" and "r < 2 ^ 1024"
  shows "toDouble x = Number r"
proof -
  have x: "0 < x" using assms(1) by (smt (verit) zero_less_power_int zero_less_numeral less_le_trans)
  have e: "exponent x = e" using assms(1,2) by (rule exponent_eqI)
  have n: "roundTiesToEven (x / 2 powi q) = n" using assms(4) by (rule roundTiesToEven_eqI)
  show ?thesis
    using x assms(6) by (simp add: toDouble_def Let_def e assms(3) [symmetric] n assms(5) [symmetric])
qed

lemma toDouble_unit_error:
  assumes "0 < x" "x \<le> 1"
  shows "\<exists>r. toDouble x = Number r \<and> \<bar>r - x\<bar> \<le> 1 / 2 ^ 53"
proof -
  have e: "exponent x \<le> 0"
  proof (cases "1 \<le> x")
    case True
    then have "x = 1" using assms(2) by simp
    then show ?thesis by (simp add: exponent_def bitLength.simps)
  next
    case False
    then show ?thesis by (simp add: exponent_def)
  qed
  define q where "q = max (exponent x - 52) (- 1074)"
  have q: "q \<le> - 52" using e by (simp add: q_def)
  have pq: "0 < (2::rat) powi q" by simp
  have "(2::rat) powi q \<le> 2 powi (- 52)"
    using q by (intro power_int_increasing) simp_all
  then have pq52: "(2::rat) powi q \<le> 1 / 2 ^ 52" by (simp add: power_int_minus inverse_eq_divide)
  define r where "r = rat_of_int (roundTiesToEven (x / 2 powi q)) * 2 powi q"
  have "\<bar>r - x\<bar> = \<bar>rat_of_int (roundTiesToEven (x / 2 powi q)) - x / 2 powi q\<bar> * 2 powi q"
  proof -
    have "r - x = (rat_of_int (roundTiesToEven (x / 2 powi q)) - x / 2 powi q) * 2 powi q"
      using pq by (simp add: r_def field_simps)
    then show ?thesis using pq by (simp add: abs_mult)
  qed
  also have "\<dots> \<le> (1 / 2) * 2 powi q"
    using roundTiesToEven_error [of "x / 2 powi q"] pq by (intro mult_right_mono) simp_all
  also have "\<dots> \<le> (1 / 2) * (1 / 2 ^ 52)"
    using pq52 by simp
  finally have err: "\<bar>r - x\<bar> \<le> 1 / 2 ^ 53" by simp
  then have "\<bar>r - x\<bar> \<le> 1" by simp
  then have "r \<le> 2" using assms(2) by linarith
  then have small: "\<not> 2 ^ 1024 \<le> r" by simp
  have "toDouble x = Number r"
    using assms(1) small by (simp add: toDouble_def Let_def q_def [symmetric] r_def [symmetric])
  with err show ?thesis by blast
qed

lemma literal_0_7: "toDouble (7 / 10) = Number (3152519739159347 / 4503599627370496)"
  by (rule toDouble_eqI [where e = "- 1" and q = "- 53" and n = 6305039478318694]) simp_all

lemma js_literal_0_7: "js_literal (7 / 10) = 3152519739159347 / 4503599627370496"
  by (simp add: js_literal_def literal_0_7)

lemma ratio_gt_iff:
  assumes "0 < n" "n < 2 ^ 32" "k \<le> n"
  shows "js_gt (js_div (Number (of_nat k)) n) (js_literal (7 / 10))
         \<longleftrightarrow> (7 / 10 :: rat) < of_nat k / of_nat n"
proof (cases "k = 0")
  case True
  then show ?thesis using assms(1) by (simp add: toDouble_def js_literal_0_7)
next
  case False
  define x :: rat where "x = of_nat k / of_nat n"
  have x0: "0 < x" using False assms(1) by (simp add: x_def)
  have x1: "x \<le> 1" using assms(1,3) by (simp add: x_def)
  obtain r where r: "toDouble x = Number r" "\<bar>r - x\<bar> \<le> 1 / 2 ^ 53"
    using toDouble_unit_error [OF x0 x1] by blast
  have d: "js_div (Number (of_nat k)) n = Number r"
    using assms(1) r(1) by (simp add: x_def)
  have nb: "rat_of_nat n < 2 ^ 32"
  proof -
    have "rat_of_nat n < rat_of_nat (2 ^ 32)" using assms(2) by (simp only: of_nat_less_iff)
    then show ?thesis by simp
  qed
  have npos: "0 < rat_of_nat n" using assms(1) by simp
  have gap: "1 / (10 * 2 ^ 32) < 1 / (10 * rat_of_nat n)"
    using nb npos by (simp add: frac_less2)
  have "js_gt (Number r) (3152519739159347 / 4503599627370496) \<longleftrightarrow> 7 / 10 < x"
  proof (cases "10 * k = 7 * n")
    case True
    then have "rat_of_nat (10 * k) = rat_of_nat (7 * n)" by (simp only:)
    then have xe: "x = 7 / 10" using npos by (simp add: x_def field_simps)
    have "r = 3152519739159347 / 4503599627370496"
      using r(1) literal_0_7 unfolding xe by simp
    then show ?thesis by (simp add: xe)
  next
    case False
    show ?thesis
    proof (cases "10 * k < 7 * n")
      case True
      then have "10 * k + 1 \<le> 7 * n" by simp
      then have "rat_of_nat (10 * k + 1) \<le> rat_of_nat (7 * n)" by (simp only: of_nat_le_iff)
      then have "10 * rat_of_nat k + 1 \<le> 7 * rat_of_nat n" by simp
      then have "x \<le> 7 / 10 - 1 / (10 * rat_of_nat n)"
        using npos by (simp add: x_def field_simps)
      then have xl: "x < 7 / 10 - 1 / (10 * 2 ^ 32)" using gap by linarith
      have "r \<le> x + 1 / 2 ^ 53" using r(2) by linarith
      with xl have "r \<le> 3152519739159347 / 4503599627370496" by simp
      moreover from xl have "\<not> 7 / 10 < x" by simp
      ultimately show ?thesis by simp
    next
      case F2: False
      with False have "7 * n + 1 \<le> 10 * k" by simp
      then have "rat_of_nat (7 * n + 1) \<le> rat_of_nat (10 * k)" by (simp only: of_nat_le_iff)
      then have "7 * rat_of_nat n + 1 \<le> 10 * rat_of_nat k" by simp
      then have "(7 * rat_of_nat n + 1) / (10 * rat_of_nat n) \<le> 10 * rat_of_nat k / (10 * rat_of_nat n)"
        using npos by (intro divide_right_mono) simp_all
      moreover have "(7 * rat_of_nat n + 1) / (10 * rat_of_nat n) = 7 / 10 + 1 / (10 * rat_of_nat n)"
        using npos by (simp add: field_simps)
      moreover have "10 * rat_of_nat k / (10 * rat_of_nat n) = x"
        by (simp add: x_def)
      ultimately have "7 / 10 + 1 / (10 * rat_of_nat n) \<le> x" by simp
      then have xg: "7 / 10 + 1 / (10 * 2 ^ 32) < x" using gap by linarith
      have "x - 1 / 2 ^ 53 \<le> r" using r(2) by linarith
      with xg have "3152519739159347 / 4503599627370496 < r" by simp
      moreover from xg have "7 / 10 < x" by simp
      ultimately show ?thesis by simp
    qed
  qed
  then show ?thesis
    unfolding d js_literal_0_7 x_def .
qed

lemma toDouble_of_nat_exact:
  assumes "n < 2 ^ 53"
  shows "toDouble (of_nat n) = Number (of_nat n)"
proof (cases "n = 0")
  case True
  then show ?thesis by (simp add: toDouble_def)
next
  case False
  define x where "x = rat_of_nat n"
  have x1: "1 \<le> x" using False by (simp add: x_def)
  then have x0: "0 < x" by simp
  have xb: "x < 2 ^ 53"
  proof -
    have "rat_of_nat n < rat_of_nat (2 ^ 53)" using assms by (simp only: of_nat_less_iff)
    then show ?thesis by (simp add: x_def)
  qed
  note b = exponent_bounds [OF x0]
  have e0: "0 \<le> exponent x"
  proof (rule ccontr)
    assume "\<not> 0 \<le> exponent x"
    then have "(2::rat) powi (exponent x + 1) \<le> 2 powi 0"
      by (intro power_int_increasing) simp_all
    with b x1 show False by simp
  qed
  have e52: "exponent x \<le> 52"
  proof (rule ccontr)
    assume "\<not> exponent x \<le> 52"
    then have "(2::rat) powi 53 \<le> 2 powi exponent x"
      by (intro power_int_increasing) simp_all
    with b xb show False by simp
  qed
  define j where "j = nat (52 - exponent x)"
  have q: "- int j = max (exponent x - 52) (- 1074)"
    using e0 e52 by (simp add: j_def)
  have p: "(2::rat) powi (- int j) = 1 / 2 ^ j"
    by (simp add: power_int_minus inverse_eq_divide)
  have y: "x / 2 powi (- int j) = rat_of_int (int (n * 2 ^ j))"
    by (simp add: p x_def)
  have "toDouble x = Number x"
  proof (rule toDouble_eqI [where e = "exponent x" and q = "- int j" and n = "int (n * 2 ^ j)"])
    show "2 powi exponent x \<le> x" "x < 2 powi (exponent x + 1)" using b by simp_all
    show "- int j = max (exponent x - 52) (- 1074)" by (rule q)
    show "\<bar>x / 2 powi (- int j) - rat_of_int (int (n * 2 ^ j))\<bar> < 1 / 2"
      unfolding y by simp
    show "x = rat_of_int (int (n * 2 ^ j)) * 2 powi (- int j)"
      by (simp add: p x_def)
    show "x < 2 ^ 1024" using xb by simp
  qed
  then show ?thesis by (simp add: x_def)
qed

section \<open>Grouping and filtering\<close>


lemma assign_keys:
  "map fst (assign k v obj) = (if k \<in> set (map fst obj) then map fst obj else map fst obj @ [k])"
proof (induction obj)
  case Nil
  show ?case by simp
next
  case (Cons p obj)
  obtain k' g where p: "p = (k', g)" by (cases p)
  show ?case using Cons.IH by (simp add: p)
qed

lemma assign_map_of:
  "map_of (assign k v obj) =
     (map_of obj)(k \<mapsto> (case map_of obj k of None \<Rightarrow> [v] | Some g \<Rightarrow> g @ [v]))"
  by (induction obj) (auto simp: fun_eq_iff)

lemma groupBy_snoc: "groupBy f (xs @ [x]) = assign (f x) x (groupBy f xs)"
  by (simp add: groupBy_def)

lemma groupBy_keys_distinct: "distinct (map fst (groupBy f xs))"
  by (induction xs rule: rev_induct) (auto simp: groupBy_snoc assign_keys groupBy_def)

lemma groupBy_keys_set: "set (map fst (groupBy f xs)) = f ` set xs"
  by (induction xs rule: rev_induct) (auto simp: groupBy_snoc assign_keys groupBy_def)

lemma groupBy_map_of:
  "map_of (groupBy f xs) k =
     (if k \<in> f ` set xs then Some (filter (\<lambda>x. f x = k) xs) else None)"
proof (induction xs arbitrary: k rule: rev_induct)
  case Nil
  show ?case by (simp add: groupBy_def)
next
  case (snoc x xs)
  show ?case
    unfolding groupBy_snoc assign_map_of
    using snoc.IH [of k] snoc.IH [of "f x"]
    by (auto split: option.splits if_splits simp: filter_empty_conv image_iff)
qed

lemma groupBy_entry:
  "(k, g) \<in> set (groupBy f xs) \<longleftrightarrow> k \<in> f ` set xs \<and> g = filter (\<lambda>x. f x = k) xs"
proof -
  have "(k, g) \<in> set (groupBy f xs) \<longleftrightarrow> map_of (groupBy f xs) k = Some g"
    using groupBy_keys_distinct [of f xs] by simp
  then show ?thesis by (auto simp: groupBy_map_of)
qed

lemma groupBy_throwing_Inr:
  "\<forall>x \<in> set xs. iteratee x = Inr (f x) \<Longrightarrow>
   groupBy_throwing iteratee xs result = Inr (foldl (\<lambda>result x. assign (f x) x result) result xs)"
  by (induction xs arbitrary: result) auto

lemma groupBy_throwing_Inl:
  "x \<in> set xs \<Longrightarrow> iteratee x = Inl e \<Longrightarrow> \<exists>e'. groupBy_throwing iteratee xs result = Inl e'"
  by (induction xs arbitrary: result) (auto split: sum.splits)

lemma groupBy_throwing_error:
  "groupBy_throwing iteratee xs result = Inl e \<Longrightarrow> \<exists>x \<in> set xs. iteratee x = Inl e"
  by (induction xs arbitrary: result) (auto split: sum.splits)

lemma ownPropertyOrder_mset: "mset (ownPropertyOrder idx obj) = mset obj"
  by (simp add: ownPropertyOrder_def)

lemma ownPropertyOrder_set: "set (ownPropertyOrder idx obj) = set obj"
  by (auto simp: ownPropertyOrder_def)

lemma ownPropertyOrder_noIndex: "ownPropertyOrder noIndex obj = obj"
  by (simp add: ownPropertyOrder_def noIndex_def)

lemma lodash_filter_set:
  "set (lodash_filter idx p obj) = {g. \<exists>k. (k, g) \<in> set obj \<and> p g}"
  by (force simp: lodash_filter_def ownPropertyOrder_set)

lemma lodash_filter_groupBy_iff:
  "g \<in> set (lodash_filter idx p (groupBy f xs)) \<longleftrightarrow>
     (\<exists>k \<in> f ` set xs. g = filter (\<lambda>x. f x = k) xs \<and> p g)"
  by (auto simp: lodash_filter_set groupBy_entry)


lemma groupBy_throwing_total:
  assumes "\<forall>x \<in> set xs. \<exists>k. iteratee x = Inr k"
  shows "groupBy_throwing iteratee xs [] = Inr (groupBy (\<lambda>x. projr (iteratee x)) xs)"
proof -
  have "\<forall>x \<in> set xs. iteratee x = Inr (projr (iteratee x))"
    using assms by auto
  then show ?thesis
    unfolding groupBy_def by (rule groupBy_throwing_Inr)
qed

lemma valid_date_bucket:
  "d \<noteq> InvalidDate \<Longrightarrow> \<exists>k. toISOString_slice13 d = Inr k"
  by (cases d) auto

lemma projr_filter_cong:
  assumes "\<forall>x \<in> set xs. \<exists>k. iteratee x = Inr k"
  shows "filter (\<lambda>x. projr (iteratee x) = k) xs = filter (\<lambda>x. iteratee x = Inr k) xs"
  by (rule filter_cong) (use assms in auto)

lemma detectFraudIndicators_valid:
  assumes "\<forall>t \<in> set (transactions this). date t \<noteq> InvalidDate"
  shows "detectFraudIndicators tza this =
     Inr \<lparr> highVelocity =
             lodash_filter noIndex (\<lambda>group. length group > velocityLimit (fraudThresholds this))
               (groupBy (\<lambda>t. projr (toISOString_slice13 (date t))) (transactions this)),
           unusualTiming =
             filter (\<lambda>t. js_ge (getHours tza (date t)) (start (suspiciousTimeRange (fraudThresholds this)))
                        \<or> js_le (getHours tza (date t)) (end' (suspiciousTimeRange (fraudThresholds this))))
               (transactions this) \<rparr>"
proof -
  have "\<forall>t \<in> set (transactions this). \<exists>k. toISOString_slice13 (date t) = Inr k"
    using assms valid_date_bucket by blast
  then have "groupBy_throwing (\<lambda>t. toISOString_slice13 (date t)) (transactions this) []
      = Inr (groupBy (\<lambda>t. projr (toISOString_slice13 (date t))) (transactions this))"
    by (rule groupBy_throwing_total)
  then show ?thesis by (simp add: detectFraudIndicators_def Let_def)
qed

lemma detectFraudIndicators_invalid:
  assumes "t \<in> set (transactions this)" "date t = InvalidDate"
  shows "detectFraudIndicators tza this = Inl RangeError"
proof -
  have "toISOString_slice13 (date t) = Inl RangeError" using assms by simp
  with assms(1) obtain e where
    "groupBy_throwing (\<lambda>t. toISOString_slice13 (date t)) (transactions this) [] = Inl e"
    using groupBy_throwing_Inl [of t "transactions this" "\<lambda>t. toISOString_slice13 (date t)"] by blast
  moreover from this obtain x :: Transaction where "toISOString_slice13 (date x) = Inl e"
    using groupBy_throwing_error [of "\<lambda>t. toISOString_slice13 (date t)" "transactions this" "[]" e]
    by blast
  then have "e = RangeError" by (cases "date x") simp_all
  ultimately show ?thesis by (simp add: detectFraudIndicators_def)
qed

lemma hour_bucket_truncation:
  "(Day t, HourFromTime t) = (Day t', HourFromTime t') \<longleftrightarrow> t div msPerHour = t' div msPerHour"
proof -
  have d: "Day s = (s div msPerHour) div 24" for s
    by (simp add: Day_def msPerDay_def msPerHour_def zdiv_zmult2_eq [symmetric])
  show ?thesis
  proof
    assume h: "(Day t, HourFromTime t) = (Day t', HourFromTime t')"
    have "t div msPerHour = 24 * ((t div msPerHour) div 24) + (t div msPerHour) mod 24" by simp
    also have "\<dots> = 24 * ((t' div msPerHour) div 24) + (t' div msPerHour) mod 24"
      using h by (simp add: d HourFromTime_def)
    also have "\<dots> = t' div msPerHour" by simp
    finally show "t div msPerHour = t' div msPerHour" .
  next
    assume "t div msPerHour = t' div msPerHour"
    then show "(Day t, HourFromTime t) = (Day t', HourFromTime t')"
      by (simp add: d HourFromTime_def)
  qed
qed

lemma groupBy_values_distinct: "distinct (map snd (groupBy f xs))"
proof -
  have "distinct (groupBy f xs)"
    using groupBy_keys_distinct [of f xs] by (simp add: distinct_map)
  moreover have "inj_on snd (set (groupBy f xs))"
  proof (rule inj_onI)
    fix p q assume p: "p \<in> set (groupBy f xs)" and q: "q \<in> set (groupBy f xs)" and e: "snd p = snd q"
    obtain k g where pk: "p = (k, g)" by (cases p)
    obtain k' g' where qk: "q = (k', g')" by (cases q)
    from p pk have 1: "k \<in> f ` set xs" "g = filter (\<lambda>x. f x = k) xs" by (simp_all add: groupBy_entry)
    from q qk have 2: "k' \<in> f ` set xs" "g' = filter (\<lambda>x. f x = k') xs" by (simp_all add: groupBy_entry)
    from 1 obtain x where x: "x \<in> set xs" "f x = k" by auto
    then have "x \<in> set g" using 1 by simp
    then have "x \<in> set g'" using e pk qk by simp
    then have "f x = k'" using 2 by simp
    then show "p = q" using x e pk qk by simp
  qed
  ultimately show ?thesis by (simp add: distinct_map)
qed

lemma lodash_filter_distinct: "distinct (lodash_filter idx p (groupBy f xs))"
proof -
  have "mset (map snd (ownPropertyOrder idx (groupBy f xs))) = mset (map snd (groupBy f xs))"
    by (simp add: ownPropertyOrder_mset)
  then have "distinct (map snd (ownPropertyOrder idx (groupBy f xs)))"
    using groupBy_values_distinct [of f xs] by (metis mset_eq_imp_distinct_iff)
  then show ?thesis by (simp add: lodash_filter_def)
qed

lemma pattern_group_iff:
  "g \<in> set (lodash_filter arrayIndex (\<lambda>group. length group \<ge> n)
               (groupBy amount (filter (\<lambda>t. type t = ty) txs))) \<longleftrightarrow>
   (\<exists>a. g = filter (\<lambda>t. type t = ty \<and> amount t = a) txs \<and> length g \<ge> n \<and> g \<noteq> [])"
  unfolding lodash_filter_groupBy_iff
  by (auto simp: filter_empty_conv conj_commute cong: conj_cong)

lemma pattern_group_full:
  "filter (\<lambda>t. type t = ty \<and> amount t = a) txs
     \<in> set (lodash_filter arrayIndex (\<lambda>group. length group \<ge> Suc n)
               (groupBy amount (filter (\<lambda>t. type t = ty) txs)))
   \<longleftrightarrow> length (filter (\<lambda>t. type t = ty \<and> amount t = a) txs) \<ge> Suc n"
proof
  assume "filter (\<lambda>t. type t = ty \<and> amount t = a) txs
     \<in> set (lodash_filter arrayIndex (\<lambda>group. length group \<ge> Suc n)
               (groupBy amount (filter (\<lambda>t. type t = ty) txs)))"
  then show "length (filter (\<lambda>t. type t = ty \<and> amount t = a) txs) \<ge> Suc n"
    unfolding pattern_group_iff by blast
next
  assume l: "length (filter (\<lambda>t. type t = ty \<and> amount t = a) txs) \<ge> Suc n"
  then have "filter (\<lambda>t. type t = ty \<and> amount t = a) txs \<noteq> []" by auto
  with l show "filter (\<lambda>t. type t = ty \<and> amount t = a) txs
     \<in> set (lodash_filter arrayIndex (\<lambda>group. length group \<ge> Suc n)
               (groupBy amount (filter (\<lambda>t. type t = ty) txs)))"
    unfolding pattern_group_iff by blast
qed

lemma highVelocity_iff:
  assumes "\<forall>t \<in> set txs. date t \<noteq> InvalidDate"
  shows "g \<in> set (lodash_filter noIndex (\<lambda>group. length group > n)
                    (groupBy (\<lambda>t. projr (toISOString_slice13 (date t))) txs)) \<longleftrightarrow>
         (\<exists>k. g = filter (\<lambda>t. toISOString_slice13 (date t) = Inr k) txs \<and> length g > n)"
proof -
  have v: "\<forall>t \<in> set txs. \<exists>k. toISOString_slice13 (date t) = Inr k"
    using assms valid_date_bucket by blast
  have eq: "filter (\<lambda>t. projr (toISOString_slice13 (date t)) = k) txs
          = filter (\<lambda>t. toISOString_slice13 (date t) = Inr k) txs" for k
    using projr_filter_cong [OF v] .
  show ?thesis
    unfolding lodash_filter_groupBy_iff eq
  proof
    assume "\<exists>k \<in> (\<lambda>t. projr (toISOString_slice13 (date t))) ` set txs.
              g = filter (\<lambda>t. toISOString_slice13 (date t) = Inr k) txs \<and> n < length g"
    then show "\<exists>k. g = filter (\<lambda>t. toISOString_slice13 (date t) = Inr k) txs \<and> n < length g"
      by blast
  next
    assume "\<exists>k. g = filter (\<lambda>t. toISOString_slice13 (date t) = Inr k) txs \<and> n < length g"
    then obtain k where k: "g = filter (\<lambda>t. toISOString_slice13 (date t) = Inr k) txs" "n < length g"
      by blast
    then have "g \<noteq> []" by auto
    then obtain t where "t \<in> set txs" "toISOString_slice13 (date t) = Inr k"
      using k(1) by (auto simp: filter_empty_conv)
    then have "k \<in> (\<lambda>t. projr (toISOString_slice13 (date t))) ` set txs"
      by force
    with k show "\<exists>k \<in> (\<lambda>t. projr (toISOString_slice13 (date t))) ` set txs.
              g = filter (\<lambda>t. toISOString_slice13 (date t) = Inr k) txs \<and> n < length g"
      by blast
  qed
qed

lemma fourDigitYearDate_valid: "fourDigitYearDate d \<Longrightarrow> d \<noteq> InvalidDate"
  by (cases d) auto

lemma key_eq_iff_truncatedToHour:
  assumes "fourDigitYearDate d" "fourDigitYearDate d'"
  shows "toISOString_slice13 d = toISOString_slice13 d' \<longleftrightarrow> truncatedToHour d = truncatedToHour d'"
proof -
  obtain tv where d: "d = TimeValue tv" "fourDigitYear tv" using assms(1) by (cases d) auto
  obtain tv' where d': "d' = TimeValue tv'" "fourDigitYear tv'" using assms(2) by (cases d') auto
  show ?thesis
    using hour_bucket_truncation [of tv tv'] by (simp add: d d')
qed

lemma bucket_by_key_is_bucket_by_hour:
  assumes "\<forall>t \<in> set txs. fourDigitYearDate (date t)" "t0 \<in> set txs"
  shows "filter (\<lambda>t. toISOString_slice13 (date t) = toISOString_slice13 (date t0)) txs
       = filter (\<lambda>t. truncatedToHour (date t) = truncatedToHour (date t0)) txs"
  by (rule filter_cong) (use assms key_eq_iff_truncatedToHour in auto)

lemma highVelocity_iff_hour:
  assumes "\<forall>t \<in> set txs. fourDigitYearDate (date t)"
  shows "g \<in> set (lodash_filter noIndex (\<lambda>group. length group > n)
                    (groupBy (\<lambda>t. projr (toISOString_slice13 (date t))) txs)) \<longleftrightarrow>
         (\<exists>h. g = filter (\<lambda>t. truncatedToHour (date t) = Some h) txs \<and> length g > n)"
proof -
  let ?key = "\<lambda>t. toISOString_slice13 (date t)"
  let ?hour = "\<lambda>t. truncatedToHour (date t)"
  have v: "\<forall>t \<in> set txs. date t \<noteq> InvalidDate"
    using assms fourDigitYearDate_valid by blast
  have "(\<exists>k. g = filter (\<lambda>t. ?key t = Inr k) txs \<and> length g > n)
        \<longleftrightarrow> (\<exists>h. g = filter (\<lambda>t. ?hour t = Some h) txs \<and> length g > n)"
  proof
    assume "\<exists>k. g = filter (\<lambda>t. ?key t = Inr k) txs \<and> length g > n"
    then obtain k where k: "g = filter (\<lambda>t. ?key t = Inr k) txs" "length g > n" by blast
    then have "g \<noteq> []" by auto
    then obtain t0 where t0: "t0 \<in> set txs" "?key t0 = Inr k"
      using k(1) by (auto simp: filter_empty_conv)
    obtain h where h: "?hour t0 = Some h"
      using assms t0(1) by (cases "date t0") auto
    have "g = filter (\<lambda>t. ?hour t = Some h) txs"
      using bucket_by_key_is_bucket_by_hour [OF assms t0(1)] k(1) t0(2) h by simp
    with k(2) show "\<exists>h. g = filter (\<lambda>t. ?hour t = Some h) txs \<and> length g > n" by blast
  next
    assume "\<exists>h. g = filter (\<lambda>t. ?hour t = Some h) txs \<and> length g > n"
    then obtain h where h: "g = filter (\<lambda>t. ?hour t = Some h) txs" "length g > n" by blast
    then have "g \<noteq> []" by auto
    then obtain t0 where t0: "t0 \<in> set txs" "?hour t0 = Some h"
      using h(1) by (auto simp: filter_empty_conv)
    obtain k where k: "?key t0 = Inr k"
      using v t0(1) valid_date_bucket by blast
    have "g = filter (\<lambda>t. ?key t = Inr k) txs"
      using bucket_by_key_is_bucket_by_hour [OF assms t0(1)] h(1) t0(2) k by simp
    with h(2) show "\<exists>k. g = filter (\<lambda>t. ?key t = Inr k) txs \<and> length g > n" by blast
  qed
  then show ?thesis using highVelocity_iff [OF v, of g n] by simp
qed

lemma HourFromTime_range: "0 \<le> HourFromTime t \<and> HourFromTime t < 24"
  by (simp add: HourFromTime_def)

lemma hour_window:
  fixes h :: int
  assumes "0 \<le> h" "h < 24"
  shows "(23 \<le> h \<or> h \<le> 4) \<longleftrightarrow> (h = 23 \<or> h = 0 \<or> h = 1 \<or> h = 2 \<or> h = 3 \<or> h = 4)"
  using assms by arith

lemma suspicious_hour_iff:
  assumes "d \<noteq> InvalidDate"
  shows "js_ge (getHours tza d) 23 \<or> js_le (getHours tza d) 4 \<longleftrightarrow>
         (\<exists>h \<in> {23, 0, 1, 2, 3, 4}. getHours tza d = Number (of_int h))"
proof -
  obtain tv where d: "d = TimeValue tv" using assms by (cases d) auto
  define h where "h = HourFromTime (tv + tza tv)"
  have r: "0 \<le> h" "h < 24" using HourFromTime_range [of "tv + tza tv"] by (simp_all add: h_def)
  have g: "getHours tza d = Number (of_int h)" by (simp add: d h_def)
  have "js_ge (getHours tza d) 23 \<or> js_le (getHours tza d) 4 \<longleftrightarrow> 23 \<le> h \<or> h \<le> 4"
    by (simp add: g)
  also have "\<dots> \<longleftrightarrow> (h = 23 \<or> h = 0 \<or> h = 1 \<or> h = 2 \<or> h = 3 \<or> h = 4)"
    using r by (rule hour_window)
  also have "\<dots> \<longleftrightarrow> (\<exists>h' \<in> {23, 0, 1, 2, 3, 4}. getHours tza d = Number (of_int h'))"
    by (simp add: g)
  finally show ?thesis .
qed

lemma lodash_max_Max: "xs \<noteq> [] \<Longrightarrow> lodash_max xs = Number (Max (set xs))"
proof (cases xs)
  case Nil
  then show "xs \<noteq> [] \<Longrightarrow> ?thesis" by simp
next
  case (Cons x ys)
  have "(\<lambda>current computed :: rat. if current > computed then current else computed) = max"
    by (intro ext) (simp add: max_def)
  then show ?thesis using Max.set_eq_fold [of x ys] by (simp add: Cons)
qed

lemma salaryScenario_patterns:
  "analyzeTransactionPatterns (new_BankAnalyzer salaryScenario) =
     \<lparr> regularIncome =
         [ [transaction 1704103200000 50000 ''Credit'' ''Net Banking Transfer'' 60000,
           transaction 1706781600000 50000 ''Credit'' ''Net Banking Transfer'' 108800,
           transaction 1709287200000 50000 ''Credit'' ''Net Banking Transfer'' 157600] ],
       recurringExpenses =
         [ [transaction 1704448800000 1200 ''Debit'' ''UPI'' 58800,
           transaction 1704448800000 1200 ''Debit'' ''UPI'' 58800] ] \<rparr>"
  by (simp add: analyzeTransactionPatterns_def new_BankAnalyzer_def salaryScenario_def
      transaction_def lodash_filter_def ownPropertyOrder_def groupBy_def arrayIndex_def)

section \<open>The opportunity rules\<close>

lemma toDouble_numeral:
  "numeral k < (2::nat) ^ 53 \<Longrightarrow> toDouble (numeral k) = Number (numeral k)"
  using toDouble_of_nat_exact [of "numeral k"] by simp

lemma baseSum_Cons: "baseSum (x # xs) = foldl baseSum_step (Number x) xs"
  by (simp add: baseSum_def baseSum_step_def)

lemma baseSum_append:
  "baseSum (xs @ y # ys) = foldl baseSum_step (baseSum_step (baseSum xs) y) ys"
  by (simp add: baseSum_def)

lemma opportunities_form:
  "crossSell (analyzeBusinessOpportunities this) =
     (if js_gt (digitalTransactions this) (js_literal (7 / 10)) then [premiumCreditCard] else [])
     @ (if js_gt (averageBalance this) 100000 then [mutualFundInvestment] else [])"
  "upSell (analyzeBusinessOpportunities this) =
     (if js_gt (maxBalance this) 500000 then [premiumBankingAccount] else [])"
  by (simp_all add: analyzeBusinessOpportunities_def Let_def)

lemma digital_rule_exact:
  assumes "length txs < 2 ^ 32"
  shows "js_gt (digitalTransactions (new_BankAnalyzer txs)) (js_literal (7 / 10)) \<longleftrightarrow>
         txs \<noteq> [] \<and>
         (7 / 10 :: rat) < of_nat (length (filter (\<lambda>t. channel t \<in> set digitalChannels) txs))
                           / of_nat (length txs)"
proof (cases "txs = []")
  case True
  then show ?thesis by (simp add: digitalTransactions_def new_BankAnalyzer_def)
next
  case False
  then have n: "0 < length txs" by simp
  have k: "length (filter (\<lambda>t. channel t \<in> set digitalChannels) txs) \<le> length txs" by simp
  show ?thesis
    using ratio_gt_iff [OF n assms k] False
    by (simp add: digitalTransactions_def new_BankAnalyzer_def)
qed

lemma peak_rule_exact:
  "js_gt (maxBalance (new_BankAnalyzer txs)) 500000 \<longleftrightarrow>
     txs \<noteq> [] \<and> 500000 < Max (balance ` set txs)"
proof (cases "txs = []")
  case True
  then show ?thesis by (simp add: maxBalance_def new_BankAnalyzer_def)
next
  case False
  then show ?thesis by (simp add: maxBalance_def new_BankAnalyzer_def lodash_max_Max)
qed

lemma literal_171046_67:
  "js_literal (17104667 / 100) = 5877118829917635 / 34359738368"
proof -
  have "toDouble (17104667 / 100) = Number (5877118829917635 / 34359738368)"
    by (rule toDouble_eqI [where e = 17 and q = "- 35" and n = 5877118829917635]) simp_all
  then show ?thesis by (simp add: js_literal_def)
qed

lemma literal_6568_34:
  "js_literal (656834 / 100) = 1805491551296553 / 274877906944"
proof -
  have "toDouble (656834 / 100) = Number (1805491551296553 / 274877906944)"
    by (rule toDouble_eqI [where e = 12 and q = "- 40" and n = 7221966205186212]) simp_all
  then show ?thesis by (simp add: js_literal_def)
qed

lemma literal_122384_99:
  "js_literal (12238499 / 100) = 8410232473140593 / 68719476736"
proof -
  have "toDouble (12238499 / 100) = Number (8410232473140593 / 68719476736)"
    by (rule toDouble_eqI [where e = 16 and q = "- 36" and n = 8410232473140593]) simp_all
  then show ?thesis by (simp add: js_literal_def)
qed

lemma roundingScenario_balances:
  "map balance roundingScenario =
     [5877118829917635 / 34359738368, 1805491551296553 / 274877906944,
      8410232473140593 / 68719476736]"
  "map balance roundingScenarioPermuted =
     [5877118829917635 / 34359738368, 8410232473140593 / 68719476736,
      1805491551296553 / 274877906944]"
  unfolding roundingScenario_def roundingScenarioPermuted_def transaction_def
    literal_171046_67 literal_6568_34 literal_122384_99
  by simp_all

lemma roundingScenario_length:
  "length roundingScenario = 3" "length roundingScenarioPermuted = 3"
  by (simp_all add: roundingScenario_def roundingScenarioPermuted_def)

lemma roundingScenario_mean:
  "averageBalance (new_BankAnalyzer roundingScenario) = Number 100000"
proof -
  have 1: "toDouble (5877118829917635 / 34359738368 + 1805491551296553 / 274877906944)
        = Number (762850659228713 / 4294967296)"
    by (rule toDouble_eqI [where e = 17 and q = "- 35" and n = 6102805273829704]) simp_all
  have 2: "toDouble (762850659228713 / 4294967296 + 8410232473140593 / 68719476736)
        = Number 300000"
    by (rule toDouble_eqI [where e = 18 and q = "- 34" and n = 5153960755200000]) simp_all
  have s: "baseSum (map balance roundingScenario) = Number 300000"
    unfolding roundingScenario_balances baseSum_Cons
    by (simp only: foldl.simps baseSum_step_def jsval.simps if_False js_add.simps 1 2)
  show ?thesis
    by (simp add: averageBalance_def new_BankAnalyzer_def lodash_mean_def s
        roundingScenario_length toDouble_numeral)
qed

lemma roundingScenarioPermuted_mean:
  "averageBalance (new_BankAnalyzer roundingScenarioPermuted)
     = Number (6871947673600001 / 68719476736)"
proof -
  have 1: "toDouble (5877118829917635 / 34359738368 + 8410232473140593 / 68719476736)
        = Number (2520558766621983 / 8589934592)"
    by (rule toDouble_eqI [where e = 18 and q = "- 34" and n = 5041117533243966]) simp_all
  have 2: "toDouble (2520558766621983 / 8589934592 + 1805491551296553 / 274877906944)
        = Number (5153960755200001 / 17179869184)"
    by (rule toDouble_eqI [where e = 18 and q = "- 34" and n = 5153960755200001]) simp_all
  have 3: "toDouble (5153960755200001 / 51539607552)
        = Number (6871947673600001 / 68719476736)"
    by (rule toDouble_eqI [where e = 16 and q = "- 36" and n = 6871947673600001]) simp_all
  have s: "baseSum (map balance roundingScenarioPermuted)
        = Number (5153960755200001 / 17179869184)"
    unfolding roundingScenario_balances baseSum_Cons
    by (simp only: foldl.simps baseSum_step_def jsval.simps if_False js_add.simps 1 2)
  show ?thesis
    by (simp add: averageBalance_def new_BankAnalyzer_def lodash_mean_def s
        roundingScenario_length 3)
qed

lemma js_add_defined: "js_add r x \<noteq> Undefined"
  by (cases r) (auto simp: toDouble_def Let_def)

lemma foldl_baseSum_step:
  "r \<noteq> Undefined \<Longrightarrow> foldl baseSum_step r xs = foldl js_add r xs"
proof (induction xs arbitrary: r)
  case Nil
  then show ?case by simp
next
  case (Cons x xs)
  have "foldl baseSum_step (js_add r x) xs = foldl js_add (js_add r x) xs"
    by (rule Cons.IH) (rule js_add_defined)
  with Cons.prems show ?case by (simp add: baseSum_step_def [of r x])
qed

lemma Opportunities_eqI:
  "crossSell x = c \<Longrightarrow> upSell x = u \<Longrightarrow> x = \<lparr> crossSell = c, upSell = u \<rparr>"
  by (cases x) simp

lemma averageBalance_code:
  "txs \<noteq> [] \<Longrightarrow>
   averageBalance (new_BankAnalyzer txs) =
     js_div (foldl js_add (Number (balance (hd txs))) (map balance (tl txs))) (length txs)"
  by (cases txs)
     (simp_all add: averageBalance_def new_BankAnalyzer_def lodash_mean_def baseSum_Cons
        foldl_baseSum_step)

lemma averageBalance_empty: "averageBalance (new_BankAnalyzer []) = NaN"
  by (simp add: averageBalance_def new_BankAnalyzer_def lodash_mean_def)

lemma toDouble_one: "toDouble 1 = Number 1"
  using toDouble_of_nat_exact [of 1] by simp

section \<open>Permutations of the input\<close>

lemma groupBy_mset:
  "mset (groupBy f xs) =
     image_mset (\<lambda>k. (k, filter (\<lambda>x. f x = k) xs)) (mset_set (f ` set xs))"
proof -
  have d: "distinct (groupBy f xs)"
    using groupBy_keys_distinct [of f xs] by (simp add: distinct_map)
  have s: "set (groupBy f xs) = (\<lambda>k. (k, filter (\<lambda>x. f x = k) xs)) ` (f ` set xs)"
  proof (rule set_eqI)
    fix p :: "'a \<times> 'b list"
    obtain k g where p: "p = (k, g)" by (cases p)
    show "p \<in> set (groupBy f xs) \<longleftrightarrow> p \<in> (\<lambda>k. (k, filter (\<lambda>x. f x = k) xs)) ` (f ` set xs)"
      unfolding p groupBy_entry by blast
  qed
  have i: "inj_on (\<lambda>k. (k, filter (\<lambda>x. f x = k) xs)) (f ` set xs)"
    by (rule inj_onI) simp
  have "mset (groupBy f xs) = mset_set (set (groupBy f xs))"
    using d by (simp add: mset_set_set)
  also have "\<dots> = image_mset (\<lambda>k. (k, filter (\<lambda>x. f x = k) xs)) (mset_set (f ` set xs))"
    unfolding s using i by (simp add: image_mset_mset_set)
  finally show ?thesis .
qed

lemma lodash_filter_groupBy_mset:
  "mset (map mset (lodash_filter idx (\<lambda>g. q (length g)) (groupBy f xs))) =
     image_mset (\<lambda>k. filter_mset (\<lambda>x. f x = k) (mset xs))
       (filter_mset (\<lambda>k. q (size (filter_mset (\<lambda>x. f x = k) (mset xs))))
          (mset_set (f ` set_mset (mset xs))))"
proof -
  have "mset (map mset (lodash_filter idx (\<lambda>g. q (length g)) (groupBy f xs))) =
      image_mset mset (filter_mset (\<lambda>g. q (length g))
        (image_mset snd (mset (ownPropertyOrder idx (groupBy f xs)))))"
    by (simp add: lodash_filter_def)
  also have "\<dots> = image_mset mset (filter_mset (\<lambda>g. q (length g))
        (image_mset (\<lambda>k. filter (\<lambda>x. f x = k) xs) (mset_set (f ` set xs))))"
    by (simp add: ownPropertyOrder_mset groupBy_mset multiset.map_comp comp_def)
  also have "\<dots> = image_mset (\<lambda>k. mset (filter (\<lambda>x. f x = k) xs))
        (filter_mset (\<lambda>k. q (length (filter (\<lambda>x. f x = k) xs))) (mset_set (f ` set xs)))"
    by (simp add: filter_mset_image_mset multiset.map_comp comp_def)
  also have "\<dots> = image_mset (\<lambda>k. filter_mset (\<lambda>x. f x = k) (mset xs))
       (filter_mset (\<lambda>k. q (size (filter_mset (\<lambda>x. f x = k) (mset xs))))
          (mset_set (f ` set_mset (mset xs))))"
    by (simp only: mset_filter [symmetric] size_mset set_mset_mset)
  finally show ?thesis .
qed

lemma lodash_filter_groupBy_permutation:
  assumes "mset ys = mset xs"
  shows "mset (map mset (lodash_filter idx (\<lambda>g. q (length g)) (groupBy f ys))) =
         mset (map mset (lodash_filter idx (\<lambda>g. q (length g)) (groupBy f xs)))"
  unfolding lodash_filter_groupBy_mset assms ..

lemma patterns_permutation:
  assumes "mset ys = mset xs"
  shows "mset (map mset (regularIncome (analyzeTransactionPatterns (new_BankAnalyzer ys)))) =
         mset (map mset (regularIncome (analyzeTransactionPatterns (new_BankAnalyzer xs))))"
    and "mset (map mset (recurringExpenses (analyzeTransactionPatterns (new_BankAnalyzer ys)))) =
         mset (map mset (recurringExpenses (analyzeTransactionPatterns (new_BankAnalyzer xs))))"
proof -
  have m: "mset (filter P ys) = mset (filter P xs)" for P :: "Transaction \<Rightarrow> bool"
    using assms by (simp only: mset_filter)
  show "mset (map mset (regularIncome (analyzeTransactionPatterns (new_BankAnalyzer ys)))) =
         mset (map mset (regularIncome (analyzeTransactionPatterns (new_BankAnalyzer xs))))"
    unfolding analyzeTransactionPatterns_def Let_def new_BankAnalyzer_def
    using lodash_filter_groupBy_permutation [OF m, of arrayIndex "\<lambda>n. n \<ge> 3" amount]
    by simp
  show "mset (map mset (recurringExpenses (analyzeTransactionPatterns (new_BankAnalyzer ys)))) =
         mset (map mset (recurringExpenses (analyzeTransactionPatterns (new_BankAnalyzer xs))))"
    unfolding analyzeTransactionPatterns_def Let_def new_BankAnalyzer_def
    using lodash_filter_groupBy_permutation [OF m, of arrayIndex "\<lambda>n. n \<ge> 2" amount]
    by simp
qed

lemma fraud_permutation:
  assumes "mset ys = mset xs"
  shows "map_sum id (\<lambda>f. (mset (map mset (highVelocity f)), mset (unusualTiming f)))
           (detectFraudIndicators tza (new_BankAnalyzer ys)) =
         map_sum id (\<lambda>f. (mset (map mset (highVelocity f)), mset (unusualTiming f)))
           (detectFraudIndicators tza (new_BankAnalyzer xs))"
proof (cases "\<forall>t \<in> set xs. date t \<noteq> InvalidDate")
  case True
  have s: "set ys = set xs" using assms by (rule mset_eq_setD)
  have vx: "\<forall>t \<in> set (transactions (new_BankAnalyzer xs)). date t \<noteq> InvalidDate"
    using True by (simp add: new_BankAnalyzer_def)
  have vy: "\<forall>t \<in> set (transactions (new_BankAnalyzer ys)). date t \<noteq> InvalidDate"
    using True s by (simp add: new_BankAnalyzer_def)
  have m: "mset (filter P ys) = mset (filter P xs)" for P :: "Transaction \<Rightarrow> bool"
    using assms by (simp only: mset_filter)
  show ?thesis
    unfolding detectFraudIndicators_valid [OF vx] detectFraudIndicators_valid [OF vy]
    using lodash_filter_groupBy_permutation [OF assms, of noIndex "\<lambda>n. n > 5"
        "\<lambda>t. projr (toISOString_slice13 (date t))"] m
    by (simp add: new_BankAnalyzer_def)
next
  case False
  then obtain t where t: "t \<in> set xs" "date t = InvalidDate" by blast
  have s: "set ys = set xs" using assms by (rule mset_eq_setD)
  have "detectFraudIndicators tza (new_BankAnalyzer xs) = Inl RangeError"
    using t by (intro detectFraudIndicators_invalid [of t]) (simp_all add: new_BankAnalyzer_def)
  moreover have "detectFraudIndicators tza (new_BankAnalyzer ys) = Inl RangeError"
    using t s by (intro detectFraudIndicators_invalid [of t]) (simp_all add: new_BankAnalyzer_def)
  ultimately show ?thesis by simp
qed

lemma opportunities_permutation:
  assumes "mset ys = mset xs"
  shows "removeAll mutualFundInvestment
           (crossSell (analyzeBusinessOpportunities (new_BankAnalyzer ys))) =
         removeAll mutualFundInvestment
           (crossSell (analyzeBusinessOpportunities (new_BankAnalyzer xs)))"
    and "upSell (analyzeBusinessOpportunities (new_BankAnalyzer ys)) =
         upSell (analyzeBusinessOpportunities (new_BankAnalyzer xs))"
proof -
  have l: "length ys = length xs" using assms by (rule mset_eq_length)
  have s: "set ys = set xs" using assms by (rule mset_eq_setD)
  have f: "length (filter P ys) = length (filter P xs)" for P :: "Transaction \<Rightarrow> bool"
  proof -
    have "mset (filter P ys) = mset (filter P xs)" using assms by (simp only: mset_filter)
    then show ?thesis by (rule mset_eq_length)
  qed
  have d: "digitalTransactions (new_BankAnalyzer ys) = digitalTransactions (new_BankAnalyzer xs)"
    by (simp add: digitalTransactions_def new_BankAnalyzer_def l f)
  have m: "maxBalance (new_BankAnalyzer ys) = maxBalance (new_BankAnalyzer xs)"
  proof (cases "xs = []")
    case True
    with l show ?thesis by (simp add: maxBalance_def new_BankAnalyzer_def)
  next
    case False
    moreover from False l have "ys \<noteq> []" by auto
    ultimately show ?thesis
      by (simp add: maxBalance_def new_BankAnalyzer_def lodash_max_Max s)
  qed
  have ne: "premiumCreditCard \<noteq> mutualFundInvestment"
    by (simp add: premiumCreditCard_def mutualFundInvestment_def)
  show "removeAll mutualFundInvestment
           (crossSell (analyzeBusinessOpportunities (new_BankAnalyzer ys))) =
         removeAll mutualFundInvestment
           (crossSell (analyzeBusinessOpportunities (new_BankAnalyzer xs)))"
    using ne by (simp add: opportunities_form d)
  show "upSell (analyzeBusinessOpportunities (new_BankAnalyzer ys)) =
         upSell (analyzeBusinessOpportunities (new_BankAnalyzer xs))"
    by (simp add: opportunities_form m)
qed

section \<open>Further facts\<close>

lemma length_remove1_member: "x \<in> set xs \<Longrightarrow> length xs = Suc (length (remove1 x xs))"
  by (simp add: length_remove1) (cases xs; auto)

lemma set_remove1_member: "x \<in> set xs \<Longrightarrow> set xs = insert x (set (remove1 x xs))"
  by (induction xs) auto

lemma detectFraudIndicators_new_valid:
  assumes "\<forall>t \<in> set txs. date t \<noteq> InvalidDate"
  shows "\<exists>f. detectFraudIndicators tza (new_BankAnalyzer txs) = Inr f
    \<and> highVelocity f =
        lodash_filter noIndex (\<lambda>group. length group > 5)
          (groupBy (\<lambda>t. projr (toISOString_slice13 (date t))) txs)
    \<and> unusualTiming f =
        filter (\<lambda>t. js_ge (getHours tza (date t)) 23 \<or> js_le (getHours tza (date t)) 4) txs"
proof -
  have v: "\<forall>t \<in> set (transactions (new_BankAnalyzer txs)). date t \<noteq> InvalidDate"
    using assms by (simp add: new_BankAnalyzer_def)
  show ?thesis
    unfolding detectFraudIndicators_valid [OF v] by (simp add: new_BankAnalyzer_def)
qed

lemma otherTypeScenario_patterns:
  "analyzeTransactionPatterns (new_BankAnalyzer otherTypeScenario) =
     \<lparr> regularIncome = [drop 3 otherTypeScenario],
       recurringExpenses = [ [otherTypeScenario ! 0, otherTypeScenario ! 2] ] \<rparr>"
  by (simp add: analyzeTransactionPatterns_def new_BankAnalyzer_def otherTypeScenario_def
      transaction_def reversal_def lodash_filter_def ownPropertyOrder_def groupBy_def arrayIndex_def)

lemma otherTypeScenario_fraud:
  "detectFraudIndicators (\<lambda>t. 19800000) (new_BankAnalyzer otherTypeScenario) =
     Inr \<lparr> highVelocity = [otherTypeScenario], unusualTiming = otherTypeScenario \<rparr>"
  by (simp add: detectFraudIndicators_def new_BankAnalyzer_def otherTypeScenario_def
      transaction_def reversal_def lodash_filter_def ownPropertyOrder_def noIndex_def
      fourDigitYear_def Day_def HourFromTime_def msPerDay_def msPerHour_def)

lemma otherTypeScenario_valid: "\<forall>t \<in> set otherTypeScenario. date t \<noteq> InvalidDate"
  by (simp add: otherTypeScenario_def transaction_def reversal_def)

section \<open>The store\<close>

subsection \<open>Loads in a grown store\<close>

lemma load_append: "a < length s \<Longrightarrow> load (s @ ext) a = load s a"
  by (simp add: load_def nth_append)

lemma load_new: "load (s @ c # ext) (length s) = Some c"
  by (simp add: load_def)

lemma load_SomeD: "load s a = Some c \<Longrightarrow> a < length s"
  by (simp add: load_def split: if_splits)

lemma loadRow_append: "loadRow s a = Inr t \<Longrightarrow> loadRow (s @ ext) a = Inr t"
  by (auto simp: load_def nth_append split: if_splits option.splits cell.splits)

lemma loadArray_append: "loadArray s a = Inr xs \<Longrightarrow> loadArray (s @ ext) a = Inr xs"
  by (auto simp: load_def nth_append split: if_splits option.splits cell.splits)

lemma loadRecommendations_append:
  "loadRecommendations s a = Inr rs \<Longrightarrow> loadRecommendations (s @ ext) a = Inr rs"
  by (auto simp: load_def nth_append split: if_splits option.splits cell.splits)

lemma loadRows_append: "loadRows s xs = Inr ts \<Longrightarrow> loadRows (s @ ext) xs = Inr ts"
proof (induction xs arbitrary: ts)
  case Nil
  then show ?case by simp
next
  case (Cons a xs)
  from Cons.prems obtain t ts' where t: "loadRow s a = Inr t" and r: "loadRows s xs = Inr ts'"
    and e: "ts = t # ts'"
    by (auto simp del: loadRow.simps split: sum.splits)
  show ?case
    using loadRow_append [OF t, of ext] Cons.IH [OF r] e
    by (simp del: loadRow.simps)
qed

lemma rowsAt_D:
  "rowsAt s a = Inr ts \<Longrightarrow> \<exists>xs. loadArray s a = Inr xs \<and> loadRows s xs = Inr ts"
  unfolding rowsAt_def by (auto simp del: loadArray.simps split: sum.splits)

lemma rowsAt_append: "rowsAt s a = Inr ts \<Longrightarrow> rowsAt (s @ ext) a = Inr ts"
proof -
  assume "rowsAt s a = Inr ts"
  then obtain xs where "loadArray s a = Inr xs" "loadRows s xs = Inr ts"
    using rowsAt_D by blast
  then show ?thesis
    using loadArray_append [of s a xs ext] loadRows_append [of s xs ts ext]
    by (simp add: rowsAt_def del: loadArray.simps)
qed

lemma rowsOfAll_append: "rowsOfAll s as = Inr gs \<Longrightarrow> rowsOfAll (s @ ext) as = Inr gs"
proof (induction as arbitrary: gs)
  case Nil
  then show ?case by simp
next
  case (Cons a as)
  from Cons.prems obtain g gs' where g: "rowsAt s a = Inr g" and r: "rowsOfAll s as = Inr gs'"
    and e: "gs = g # gs'"
    by (auto split: sum.splits)
  show ?case
    using rowsAt_append [OF g, of ext] Cons.IH [OF r] e by simp
qed

lemma groupsAt_append: "groupsAt s a = Inr gs \<Longrightarrow> groupsAt (s @ ext) a = Inr gs"
proof -
  assume "groupsAt s a = Inr gs"
  then obtain xs where "loadArray s a = Inr xs" "rowsOfAll s xs = Inr gs"
    unfolding groupsAt_def by (auto simp del: loadArray.simps split: sum.splits)
  then show ?thesis
    using loadArray_append [of s a xs ext] rowsOfAll_append [of s xs gs ext]
    by (simp add: groupsAt_def del: loadArray.simps)
qed

lemma loadRows_length: "loadRows s xs = Inr ts \<Longrightarrow> length ts = length xs"
  by (induction xs arbitrary: ts) (auto simp del: loadRow.simps split: sum.splits)

lemma loadRows_nth:
  "loadRows s xs = Inr ts \<Longrightarrow> j < length xs \<Longrightarrow> loadRow s (xs ! j) = Inr (ts ! j)"
proof (induction xs arbitrary: ts j)
  case Nil
  then show ?case by simp
next
  case (Cons a xs)
  from Cons.prems(1) obtain t ts' where t: "loadRow s a = Inr t" and r: "loadRows s xs = Inr ts'"
    and e: "ts = t # ts'"
    by (auto simp del: loadRow.simps split: sum.splits)
  show ?case
  proof (cases j)
    case 0
    with t e show ?thesis by (simp del: loadRow.simps)
  next
    case (Suc i)
    with Cons.prems(2) have "i < length xs" by simp
    from Cons.IH [OF r this] Suc e show ?thesis by (simp del: loadRow.simps)
  qed
qed

lemma loadRows_map:
  "(\<And>p. p \<in> set zs \<Longrightarrow> loadRow s (fst p) = Inr (snd p)) \<Longrightarrow>
   loadRows s (map fst zs) = Inr (map snd zs)"
  by (induction zs) (simp_all del: loadRow.simps)

lemma loadRows_zip:
  assumes "loadRows s xs = Inr ts" and "p \<in> set (zip xs ts)"
  shows "loadRow s (fst p) = Inr (snd p)"
proof -
  from assms(2) obtain j where "j < length xs" "p = (xs ! j, ts ! j)"
    by (auto simp: set_zip)
  with loadRows_nth [OF assms(1)] show ?thesis by (simp del: loadRow.simps)
qed

subsection \<open>Array methods on the store\<close>

lemma Array_filter_rows:
  assumes "rowsAt s array = Inr ts"
  shows "\<exists>xs. Array_filter callback array s = Inr (length s, s @ [Array xs])
            \<and> rowsAt (s @ [Array xs]) (length s) = Inr (filter callback ts)"
proof -
  from rowsAt_D [OF assms] obtain xs where a: "loadArray s array = Inr xs"
    and r: "loadRows s xs = Inr ts" by blast
  let ?zs = "filter (\<lambda>p. callback (snd p)) (zip xs ts)"
  have l: "length ts = length xs" using r by (rule loadRows_length)
  have "loadRows s (map fst ?zs) = Inr (map snd ?zs)"
    by (rule loadRows_map) (use loadRows_zip [OF r] in auto)
  moreover have "map snd ?zs = filter callback (map snd (zip xs ts))"
    by (simp add: filter_map comp_def)
  ultimately have "loadRows s (map fst ?zs) = Inr (filter callback ts)"
    using l by simp
  then have "loadRows (s @ [Array (map fst ?zs)]) (map fst ?zs) = Inr (filter callback ts)"
    by (rule loadRows_append)
  then have "rowsAt (s @ [Array (map fst ?zs)]) (length s) = Inr (filter callback ts)"
    by (simp add: rowsAt_def load_def)
  moreover have "Array_filter callback array s = Inr (length s, s @ [Array (map fst ?zs)])"
    using a r by (simp add: Array_filter_def alloc_def del: loadArray.simps)
  ultimately show ?thesis by blast
qed

subsection \<open>Objects under a change of the values\<close>

lemma insort_key_map:
  "insort_key f (h x) (map h xs) = map h (insort_key (\<lambda>y. f (h y)) x xs)"
  by (induction xs) simp_all

lemma sort_key_map: "sort_key f (map h xs) = map h (sort_key (\<lambda>y. f (h y)) xs)"
  by (induction xs) (simp_all add: insort_key_map)

lemma ownPropertyOrder_map:
  assumes "\<And>p. idx (fst (h p)) = idx' (fst p)"
  shows "ownPropertyOrder idx (map h obj) = map h (ownPropertyOrder idx' obj)"
  by (simp add: ownPropertyOrder_def filter_map comp_def assms sort_key_map)

lemma assign_map:
  assumes "inj c"
  shows "assign (c k) (h v) (map (\<lambda>p. (c (fst p), map h (snd p))) obj)
         = map (\<lambda>p. (c (fst p), map h (snd p))) (assign k v obj)"
  using assms by (induction obj) (auto dest: injD)

lemma groupBy_map:
  assumes "inj c"
  shows "groupBy (\<lambda>y. c (f y)) (map h zs)
         = map (\<lambda>p. (c (fst p), map h (snd p))) (groupBy (\<lambda>z. f (h z)) zs)"
proof (induction zs rule: rev_induct)
  case Nil
  show ?case by (simp add: groupBy_def)
next
  case (snoc z zs)
  show ?case
    using assign_map [OF assms, of "f (h z)" h z "groupBy (\<lambda>z. f (h z)) zs"]
    by (simp add: groupBy_snoc snoc.IH)
qed

subsection \<open>The loop of groupBy on the store\<close>

lemma numbered_snoc: "numbered b (ks @ [k]) = numbered b ks @ [(k, b + length ks)]"
  by (induction ks arbitrary: b) simp_all

lemma numbered_keys: "map fst (numbered b ks) = ks"
  by (induction ks arbitrary: b) simp_all

lemma numbered_None: "map_of (numbered b ks) k = None \<longleftrightarrow> k \<notin> set ks"
  by (simp add: map_of_eq_None_iff numbered_keys flip: set_map)

lemma numbered_Some:
  "map_of (numbered b ks) k = Some g \<Longrightarrow> \<exists>i < length ks. ks ! i = k \<and> g = b + i"
proof (induction ks arbitrary: b)
  case Nil
  then show ?case by simp
next
  case (Cons k' ks)
  show ?case
  proof (cases "k = k'")
    case True
    with Cons.prems show ?thesis by auto
  next
    case False
    with Cons.prems have "map_of (numbered (Suc b) ks) k = Some g" by simp
    from Cons.IH [OF this] obtain i where "i < length ks" "ks ! i = k" "g = Suc b + i" by blast
    then have "Suc i < length (k' # ks) \<and> (k' # ks) ! Suc i = k \<and> g = b + Suc i" by simp
    then show ?thesis by blast
  qed
qed

lemma assign_new: "k \<notin> fst ` set obj \<Longrightarrow> assign k v obj = obj @ [(k, [v])]"
  by (induction obj) auto

lemma assign_nth:
  "distinct (map fst obj) \<Longrightarrow> i < length obj \<Longrightarrow> fst (obj ! i) = k \<Longrightarrow>
   assign k v obj = obj[i := (k, snd (obj ! i) @ [v])]"
proof (induction obj arbitrary: i)
  case Nil
  then show ?case by simp
next
  case (Cons p obj)
  show ?case
  proof (cases i)
    case 0
    with Cons.prems show ?thesis by (cases p) simp
  next
    case (Suc j)
    with Cons.prems have j: "j < length obj" "fst (obj ! j) = k" by simp_all
    then have "k \<in> fst ` set obj" by (metis nth_mem image_eqI)
    moreover from Cons.prems(1) have "fst p \<notin> fst ` set obj" by simp
    ultimately have "k \<noteq> fst p" by blast
    moreover have "assign k v obj = obj[j := (k, snd (obj ! j) @ [v])]"
      using Cons.IH [OF _ j] Cons.prems(1) by simp
    ultimately show ?thesis using Suc by (cases p) simp
  qed
qed

lemma assign_distinct: "distinct (map fst obj) \<Longrightarrow> distinct (map fst (assign k v obj))"
  by (simp add: assign_keys)

lemma groupedStore_length: "length (groupedStore s G) = Suc (length s + length G)"
  by (simp add: groupedStore_def)

lemma groupedStore_object:
  "loadObject (groupedStore s G) (length s) = Inr (numbered (Suc (length s)) (map fst G))"
  by (simp add: groupedStore_def load_def)

lemma groupedStore_array:
  "i < length G \<Longrightarrow>
   loadArray (groupedStore s G) (Suc (length s) + i) = Inr (map fst (snd (G ! i)))"
  by (simp add: groupedStore_def load_def nth_append)

lemma groupedStore_new:
  "(groupedStore s G @ [Array [x] ])
      [length s := Object (numbered (Suc (length s)) (map fst G)
                           @ [(k, length (groupedStore s G))])]
   = groupedStore s (G @ [(k, [(x, t)])])"
  by (simp add: groupedStore_def list_update_append numbered_snoc)

lemma groupedStore_push:
  assumes "i < length G" and "fst (G ! i) = k"
  shows "(groupedStore s G)[Suc (length s) + i := Array (map fst (snd (G ! i)) @ [x])]
         = groupedStore s (G[i := (k, snd (G ! i) @ [(x, t)])])"
proof -
  have "map fst (G[i := (k, snd (G ! i) @ [(x, t)])]) = map fst G"
    using assms by (simp add: map_update list_update_same_conv)
  then show ?thesis
    using assms by (simp add: groupedStore_def list_update_append map_update)
qed

lemma groupBy_round_grouped:
  assumes a: "loadArray s array = Inr xs" and r: "loadRows s xs = Inr ts"
    and j: "j < length xs" and k: "iteratee (ts ! j) = Inr key"
    and d: "distinct (map fst G)"
  shows "groupBy_round iteratee array (length s) j (groupedStore s G)
         = Inr (groupedStore s (assign key (xs ! j, ts ! j) G))"
proof -
  let ?S = "groupedStore s G"
  let ?props = "numbered (Suc (length s)) (map fst G)"
  have S: "?S = s @ Object ?props # map (\<lambda>p. Array (map fst (snd p))) G"
    by (simp add: groupedStore_def)
  have a': "loadArray ?S array = Inr xs"
    unfolding S using a by (rule loadArray_append)
  have "loadRow s (xs ! j) = Inr (ts ! j)" using r j by (rule loadRows_nth)
  then have t': "loadRow ?S (xs ! j) = Inr (ts ! j)"
    unfolding S by (rule loadRow_append)
  note o = groupedStore_object [of s G]
  show ?thesis
  proof (cases "map_of ?props key")
    case None
    then have "key \<notin> fst ` set G"
      by (simp add: numbered_None)
    then have "assign key (xs ! j, ts ! j) G = G @ [(key, [(xs ! j, ts ! j)])]"
      by (rule assign_new)
    then show ?thesis
      using a' t' o j k None groupedStore_new [of s G "xs ! j" key "ts ! j"]
      by (simp add: groupBy_round_def alloc_def del: loadArray.simps loadRow.simps loadObject.simps)
  next
    case (Some g)
    then obtain i where i: "i < length G" "fst (G ! i) = key" "g = Suc (length s) + i"
      using numbered_Some [of "Suc (length s)" "map fst G" key g] by auto
    have "assign key (xs ! j, ts ! j) G = G[i := (key, snd (G ! i) @ [(xs ! j, ts ! j)])]"
      using d i(1,2) by (rule assign_nth)
    then show ?thesis
      using a' t' o j k Some i groupedStore_array [OF i(1), of s]
        groupedStore_push [OF i(1,2), of s "xs ! j" "ts ! j"]
      by (simp add: groupBy_round_def del: loadArray.simps loadRow.simps loadObject.simps)
  qed
qed

lemma groupBy_loop_grouped:
  assumes a: "loadArray s array = Inr xs" and r: "loadRows s xs = Inr ts"
    and k: "\<And>t. t \<in> set ts \<Longrightarrow> iteratee t = Inr (f t)"
  shows "j \<le> length xs \<Longrightarrow>
     groupBy_loop iteratee array (length s) [j ..< length xs]
        (groupedStore s (groupBy (\<lambda>p. f (snd p)) (take j (zip xs ts))))
     = Inr (groupedStore s (groupBy (\<lambda>p. f (snd p)) (zip xs ts)))"
proof (induction "length xs - j" arbitrary: j)
  case 0
  then have "j = length xs" by simp
  then show ?case by simp
next
  case (Suc n)
  then have j: "j < length xs" by simp
  have l: "length ts = length xs" using r by (rule loadRows_length)
  let ?zs = "zip xs ts"
  have z: "?zs ! j = (xs ! j, ts ! j)" using j l by simp
  have "ts ! j \<in> set ts" using j l by simp
  then have kj: "iteratee (ts ! j) = Inr (f (ts ! j))" by (rule k)
  have "take (Suc j) ?zs = take j ?zs @ [(xs ! j, ts ! j)]"
    using j l z by (simp add: take_Suc_conv_app_nth)
  then have g: "groupBy (\<lambda>p. f (snd p)) (take (Suc j) ?zs)
      = assign (f (ts ! j)) (xs ! j, ts ! j) (groupBy (\<lambda>p. f (snd p)) (take j ?zs))"
    by (simp add: groupBy_snoc)
  have step: "groupBy_round iteratee array (length s) j
        (groupedStore s (groupBy (\<lambda>p. f (snd p)) (take j ?zs)))
      = Inr (groupedStore s (groupBy (\<lambda>p. f (snd p)) (take (Suc j) ?zs)))"
    unfolding g
    using a r j kj groupBy_keys_distinct [of "\<lambda>p. f (snd p)" "take j ?zs"]
    by (rule groupBy_round_grouped)
  have "n = length xs - Suc j" using Suc.hyps(2) by simp
  moreover have "Suc j \<le> length xs" using j by simp
  ultimately have "groupBy_loop iteratee array (length s) [Suc j ..< length xs]
        (groupedStore s (groupBy (\<lambda>p. f (snd p)) (take (Suc j) ?zs)))
      = Inr (groupedStore s (groupBy (\<lambda>p. f (snd p)) ?zs))"
    by (rule Suc.hyps(1))
  then show ?case
    using j step by (simp add: upt_conv_Cons)
qed

lemma groupBy_store_grouped:
  assumes a: "loadArray s array = Inr xs" and r: "loadRows s xs = Inr ts"
    and k: "\<And>t. t \<in> set ts \<Longrightarrow> iteratee t = Inr (f t)"
  shows "groupBy_store iteratee array s
         = Inr (length s, groupedStore s (groupBy (\<lambda>p. f (snd p)) (zip xs ts)))"
proof -
  have e: "s @ [Object [] ] = groupedStore s (groupBy (\<lambda>p. f (snd p)) (take 0 (zip xs ts)))"
    by (simp add: groupedStore_def groupBy_def)
  have a': "loadArray (s @ [Object [] ]) array = Inr xs"
    using a by (rule loadArray_append)
  have "groupBy_loop iteratee array (length s) [0 ..< length xs] (s @ [Object [] ])
     = Inr (groupedStore s (groupBy (\<lambda>p. f (snd p)) (zip xs ts)))"
    unfolding e by (rule groupBy_loop_grouped [OF a r k]) simp_all
  then show ?thesis
    using a' by (simp add: groupBy_store_def alloc_def del: loadArray.simps)
qed

subsection \<open>The filter of the grouped object on the store\<close>

lemma numbered_length: "length (numbered b ks) = length ks"
  by (induction ks arbitrary: b) simp_all

lemma numbered_nth: "i < length ks \<Longrightarrow> numbered b ks ! i = (ks ! i, b + i)"
proof (induction ks arbitrary: b i)
  case Nil
  then show ?case by simp
next
  case (Cons k ks)
  then show ?case by (cases i) simp_all
qed

lemma numbered_set:
  "p \<in> set (numbered b ks) \<Longrightarrow> \<exists>i < length ks. p = (ks ! i, b + i)"
  by (metis in_set_conv_nth numbered_length numbered_nth)

lemma loadArrays_map:
  "(\<And>p. p \<in> set ps \<Longrightarrow> loadArray s (snd p) = Inr (h p)) \<Longrightarrow>
   loadArrays s (map snd ps) = Inr (map h ps)"
  by (induction ps) (simp_all del: loadArray.simps)

lemma rowsOfAll_map:
  "(\<And>p. p \<in> set ps \<Longrightarrow> rowsAt s (snd p) = Inr (h p)) \<Longrightarrow>
   rowsOfAll s (map snd ps) = Inr (map h ps)"
  by (induction ps) simp_all

lemma groupBy_members: "(k, g) \<in> set (groupBy f xs) \<Longrightarrow> set g \<subseteq> set xs"
  by (auto simp: groupBy_entry)

lemma lodash_filter_store_grouped:
  fixes G :: "(propertyKey, (addr \<times> Transaction) list) jsobject"
  assumes m: "\<And>k g p. (k, g) \<in> set G \<Longrightarrow> p \<in> set g \<Longrightarrow> loadRow s (fst p) = Inr (snd p)"
    and pr: "\<And>g :: (addr \<times> Transaction) list. predicate (map fst g) = predicate' (map snd g)"
  shows "\<exists>R. lodash_filter_store predicate (length s) (groupedStore s G)
              = Inr (length (groupedStore s G), groupedStore s G @ [Array R])
           \<and> groupsAt (groupedStore s G @ [Array R]) (length (groupedStore s G))
              = Inr (lodash_filter keyIndex predicate'
                       (map (\<lambda>p. (fst p, map snd (snd p))) G))"
proof -
  let ?b = "Suc (length s)"
  let ?S = "groupedStore s G"
  let ?props = "numbered ?b (map fst G)"
  let ?D = "\<lambda>p :: propertyKey \<times> addr. (fst p, snd (G ! (snd p - ?b)))"
  let ?O = "ownPropertyOrder keyIndex ?props"
  let ?h = "\<lambda>p. map fst (snd (?D p))"
  let ?E = "\<lambda>p :: propertyKey \<times> (addr \<times> Transaction) list. (fst p, map snd (snd p))"
  have DG: "map ?D ?props = G"
    by (rule nth_equalityI) (simp_all add: numbered_length numbered_nth)
  have OG: "ownPropertyOrder keyIndex G = map ?D ?O"
  proof -
    have "ownPropertyOrder keyIndex (map ?D ?props) = map ?D ?O"
      by (rule ownPropertyOrder_map) simp
    then show ?thesis by (simp only: DG)
  qed
  have inO: "\<exists>i < length G. p = (fst (G ! i), ?b + i)" if "p \<in> set ?O" for p
  proof -
    from that have "p \<in> set ?props" by (simp add: ownPropertyOrder_set)
    from numbered_set [OF this] show ?thesis by auto
  qed
  have la: "loadArray ?S (snd p) = Inr (?h p)" if "p \<in> set ?O" for p
  proof -
    from inO [OF that] obtain i where i: "i < length G" "p = (fst (G ! i), ?b + i)" by blast
    then show ?thesis using groupedStore_array [OF i(1), of s] by (simp del: loadArray.simps)
  qed
  have "loadArrays ?S (map snd ?O) = Inr (map ?h ?O)"
    by (rule loadArrays_map) (rule la)
  moreover have "zip (map snd ?O) (map ?h ?O) = map (\<lambda>p. (snd p, ?h p)) ?O"
    by (simp add: zip_map_map zip_same_conv_map)
  ultimately have run: "lodash_filter_store predicate (length s) ?S
      = Inr (length ?S, ?S @ [Array (map snd (filter (\<lambda>p. predicate (?h p)) ?O))])"
    using groupedStore_object [of s G]
    by (simp add: lodash_filter_store_def alloc_def filter_map comp_def
        del: loadArray.simps loadObject.simps)
  let ?R = "map snd (filter (\<lambda>p. predicate (?h p)) ?O)"
  let ?S' = "?S @ [Array ?R]"
  have ra: "rowsAt ?S' (snd p) = Inr (map snd (snd (?D p)))" if "p \<in> set ?O" for p
  proof -
    from inO [OF that] obtain i where i: "i < length G" "p = (fst (G ! i), ?b + i)" by blast
    then have g: "snd (?D p) = snd (G ! i)" by simp
    have "(fst (G ! i), snd (G ! i)) \<in> set G" using i(1) by simp
    then have "\<And>q. q \<in> set (snd (G ! i)) \<Longrightarrow> loadRow s (fst q) = Inr (snd q)"
      by (rule m)
    then have "loadRows s (map fst (snd (G ! i))) = Inr (map snd (snd (G ! i)))"
      by (rule loadRows_map)
    then have "loadRows ?S (map fst (snd (G ! i))) = Inr (map snd (snd (G ! i)))"
      unfolding groupedStore_def by (rule loadRows_append)
    with la [OF that] have "rowsAt ?S (snd p) = Inr (map snd (snd (?D p)))"
      unfolding g by (simp add: rowsAt_def del: loadArray.simps)
    then show ?thesis by (rule rowsAt_append)
  qed
  have "rowsOfAll ?S' (map snd (filter (\<lambda>p. predicate (?h p)) ?O))
      = Inr (map (\<lambda>p. map snd (snd (?D p))) (filter (\<lambda>p. predicate (?h p)) ?O))"
    by (rule rowsOfAll_map) (use ra in simp)
  then have "groupsAt ?S' (length ?S)
      = Inr (map (\<lambda>p. map snd (snd (?D p))) (filter (\<lambda>p. predicate (?h p)) ?O))"
    by (simp add: groupsAt_def load_def)
  moreover have "map (\<lambda>p. map snd (snd (?D p))) (filter (\<lambda>p. predicate (?h p)) ?O)
      = lodash_filter keyIndex predicate' (map ?E G)"
  proof -
    have "ownPropertyOrder keyIndex (map ?E G) = map ?E (ownPropertyOrder keyIndex G)"
      by (rule ownPropertyOrder_map) simp
    then have "lodash_filter keyIndex predicate' (map ?E G)
        = filter predicate' (map (\<lambda>p. map snd (snd (?D p))) ?O)"
      by (simp add: lodash_filter_def OG comp_def)
    also have "\<dots> = map (\<lambda>p. map snd (snd (?D p))) (filter (\<lambda>p. predicate (?h p)) ?O)"
      by (simp add: filter_map comp_def pr)
    finally show ?thesis by simp
  qed
  ultimately show ?thesis using run by auto
qed

text \<open>The chain \<^verbatim>\<open>groupBy\<close>, \<^verbatim>\<open>filter\<close>, \<^verbatim>\<open>value\<close> on the store.\<close>

lemma chain_store:
  assumes r: "rowsAt s array = Inr ts"
    and k: "\<And>t. t \<in> set ts \<Longrightarrow> iteratee t = Inr (f t)"
    and pr: "\<And>g :: (addr \<times> Transaction) list. predicate (map fst g) = predicate' (map snd g)"
  shows "\<exists>ext ext' grouped. groupBy_store iteratee array s = Inr (grouped, s @ ext)
           \<and> lodash_filter_store predicate grouped (s @ ext)
              = Inr (length (s @ ext), s @ ext @ ext')
           \<and> groupsAt (s @ ext @ ext') (length (s @ ext))
              = Inr (lodash_filter keyIndex predicate' (groupBy f ts))"
proof -
  from rowsAt_D [OF r] obtain xs where a: "loadArray s array = Inr xs"
    and rows: "loadRows s xs = Inr ts" by blast
  let ?G = "groupBy (\<lambda>p. f (snd p)) (zip xs ts)"
  have l: "length ts = length xs" using rows by (rule loadRows_length)
  have g: "groupBy_store iteratee array s = Inr (length s, groupedStore s ?G)"
    using a rows k by (rule groupBy_store_grouped)
  have m: "loadRow s (fst p) = Inr (snd p)" if "(k, g) \<in> set ?G" "p \<in> set g" for k g p
  proof -
    from that have "p \<in> set (zip xs ts)" using groupBy_members by fastforce
    with rows show ?thesis by (rule loadRows_zip)
  qed
  have "\<exists>R. lodash_filter_store predicate (length s) (groupedStore s ?G)
              = Inr (length (groupedStore s ?G), groupedStore s ?G @ [Array R])
           \<and> groupsAt (groupedStore s ?G @ [Array R]) (length (groupedStore s ?G))
              = Inr (lodash_filter keyIndex predicate'
                       (map (\<lambda>p. (fst p, map snd (snd p))) ?G))"
  proof (rule lodash_filter_store_grouped)
    fix k g p
    assume "(k, g) \<in> set ?G" "p \<in> set g"
    then show "loadRow s (fst p) = Inr (snd p)" by (rule m)
  next
    fix g :: "(addr \<times> Transaction) list"
    show "predicate (map fst g) = predicate' (map snd g)" by (rule pr)
  qed
  then obtain R where R: "lodash_filter_store predicate (length s) (groupedStore s ?G)
              = Inr (length (groupedStore s ?G), groupedStore s ?G @ [Array R])"
    and v: "groupsAt (groupedStore s ?G @ [Array R]) (length (groupedStore s ?G))
              = Inr (lodash_filter keyIndex predicate'
                       (map (\<lambda>p. (fst p, map snd (snd p))) ?G))"
    by blast
  have "groupBy (\<lambda>y. id (f y)) (map snd (zip xs ts))
      = map (\<lambda>p. (id (fst p), map snd (snd p))) ?G"
    by (rule groupBy_map) simp
  then have e: "map (\<lambda>p. (fst p, map snd (snd p))) ?G = groupBy f ts"
    using l by simp
  obtain ext where ext: "groupedStore s ?G = s @ ext"
    by (simp add: groupedStore_def)
  show ?thesis
    using g R v unfolding e ext by (intro exI [of _ ext] exI [of _ "[Array R]"]) auto
qed

lemma lodash_filter_AmountKey:
  "lodash_filter keyIndex p (groupBy (\<lambda>t. AmountKey (f t)) xs)
   = lodash_filter arrayIndex p (groupBy f xs)"
proof -
  have "groupBy (\<lambda>y. AmountKey (f y)) (map id xs)
      = map (\<lambda>p. (AmountKey (fst p), map id (snd p))) (groupBy (\<lambda>z. f (id z)) xs)"
    by (rule groupBy_map) (simp add: inj_def)
  then have g: "groupBy (\<lambda>y. AmountKey (f y)) xs
      = map (\<lambda>p. (AmountKey (fst p), snd p)) (groupBy f xs)"
    by simp
  have "ownPropertyOrder keyIndex (map (\<lambda>p. (AmountKey (fst p), snd p)) (groupBy f xs))
      = map (\<lambda>p. (AmountKey (fst p), snd p)) (ownPropertyOrder arrayIndex (groupBy f xs))"
    by (rule ownPropertyOrder_map) simp
  then show ?thesis by (simp add: lodash_filter_def g comp_def)
qed

lemma lodash_filter_ISOKey:
  "lodash_filter keyIndex p (groupBy (\<lambda>t. ISOKey (f t)) xs)
   = lodash_filter noIndex p (groupBy f xs)"
proof -
  have "groupBy (\<lambda>y. ISOKey (f y)) (map id xs)
      = map (\<lambda>p. (ISOKey (fst p), map id (snd p))) (groupBy (\<lambda>z. f (id z)) xs)"
    by (rule groupBy_map) (simp add: inj_def)
  then have g: "groupBy (\<lambda>y. ISOKey (f y)) xs
      = map (\<lambda>p. (ISOKey (fst p), snd p)) (groupBy f xs)"
    by simp
  have "ownPropertyOrder keyIndex (map (\<lambda>p. (ISOKey (fst p), snd p)) (groupBy f xs))
      = map (\<lambda>p. (ISOKey (fst p), snd p)) (ownPropertyOrder noIndex (groupBy f xs))"
    by (rule ownPropertyOrder_map) simp
  then show ?thesis by (simp add: lodash_filter_def g comp_def)
qed

subsection \<open>The methods on the store\<close>

lemma analyzeTransactionPatterns_store_refines:
  assumes r: "rowsAt s (transactionsRef this) = Inr ts"
  shows "\<exists>p ext. analyzeTransactionPatterns_store this s = Inr (p, s @ ext)
           \<and> groupsAt (s @ ext) (regularIncomeRef p)
              = Inr (regularIncome (analyzeTransactionPatterns (new_BankAnalyzer ts)))
           \<and> groupsAt (s @ ext) (recurringExpensesRef p)
              = Inr (recurringExpenses (analyzeTransactionPatterns (new_BankAnalyzer ts)))"
proof -
  let ?a = "transactionsRef this"
  let ?credits = "filter (\<lambda>t. type t = ''Credit'') ts"
  let ?debits = "filter (\<lambda>t. type t = ''Debit'') ts"
  let ?key = "\<lambda>t. AmountKey (amount t)"
  from Array_filter_rows [OF r, of "\<lambda>t. type t = ''Credit''"]
  obtain c where 1: "Array_filter (\<lambda>t. type t = ''Credit'') ?a s = Inr (length s, s @ [Array c])"
    and c: "rowsAt (s @ [Array c]) (length s) = Inr ?credits" by blast
  let ?s1 = "s @ [Array c]"
  have r1: "rowsAt ?s1 ?a = Inr ts" using r by (rule rowsAt_append)
  from Array_filter_rows [OF r1, of "\<lambda>t. type t = ''Debit''"]
  obtain d where 2: "Array_filter (\<lambda>t. type t = ''Debit'') ?a ?s1 = Inr (length ?s1, ?s1 @ [Array d])"
    and d: "rowsAt (?s1 @ [Array d]) (length ?s1) = Inr ?debits" by blast
  let ?s2 = "?s1 @ [Array d]"
  have c2: "rowsAt ?s2 (length s) = Inr ?credits" using c by (rule rowsAt_append)
  have "\<exists>ext ext' grouped. groupBy_store (\<lambda>t. Inr (?key t)) (length s) ?s2 = Inr (grouped, ?s2 @ ext)
           \<and> lodash_filter_store (\<lambda>group. 3 \<le> length group) grouped (?s2 @ ext)
              = Inr (length (?s2 @ ext), ?s2 @ ext @ ext')
           \<and> groupsAt (?s2 @ ext @ ext') (length (?s2 @ ext))
              = Inr (lodash_filter keyIndex (\<lambda>group. 3 \<le> length group) (groupBy ?key ?credits))"
    by (rule chain_store [OF c2]) simp_all
  then obtain e3 e4 g3 where 3: "groupBy_store (\<lambda>t. Inr (?key t)) (length s) ?s2 = Inr (g3, ?s2 @ e3)"
    and 4: "lodash_filter_store (\<lambda>group. 3 \<le> length group) g3 (?s2 @ e3)
              = Inr (length (?s2 @ e3), ?s2 @ e3 @ e4)"
    and i: "groupsAt (?s2 @ e3 @ e4) (length (?s2 @ e3))
              = Inr (lodash_filter keyIndex (\<lambda>group. 3 \<le> length group) (groupBy ?key ?credits))"
    by blast
  let ?s4 = "?s2 @ e3 @ e4"
  have d4: "rowsAt ?s4 (length ?s1) = Inr ?debits" using d by (rule rowsAt_append)
  have "\<exists>ext ext' grouped. groupBy_store (\<lambda>t. Inr (?key t)) (length ?s1) ?s4 = Inr (grouped, ?s4 @ ext)
           \<and> lodash_filter_store (\<lambda>group. 2 \<le> length group) grouped (?s4 @ ext)
              = Inr (length (?s4 @ ext), ?s4 @ ext @ ext')
           \<and> groupsAt (?s4 @ ext @ ext') (length (?s4 @ ext))
              = Inr (lodash_filter keyIndex (\<lambda>group. 2 \<le> length group) (groupBy ?key ?debits))"
    by (rule chain_store [OF d4]) simp_all
  then obtain e5 e6 g5 where 5: "groupBy_store (\<lambda>t. Inr (?key t)) (length ?s1) ?s4 = Inr (g5, ?s4 @ e5)"
    and 6: "lodash_filter_store (\<lambda>group. 2 \<le> length group) g5 (?s4 @ e5)
              = Inr (length (?s4 @ e5), ?s4 @ e5 @ e6)"
    and x: "groupsAt (?s4 @ e5 @ e6) (length (?s4 @ e5))
              = Inr (lodash_filter keyIndex (\<lambda>group. 2 \<le> length group) (groupBy ?key ?debits))"
    by blast
  let ?s6 = "?s4 @ e5 @ e6"
  have i6: "groupsAt ?s6 (length (?s2 @ e3))
              = Inr (lodash_filter keyIndex (\<lambda>group. 3 \<le> length group) (groupBy ?key ?credits))"
    using i by (rule groupsAt_append)
  let ?p = "\<lparr> regularIncomeRef = length (?s2 @ e3), recurringExpensesRef = length (?s4 @ e5) \<rparr>"
  have run: "analyzeTransactionPatterns_store this s = Inr (?p, ?s6)"
    using 1 2 3 4 5 6 by (simp add: analyzeTransactionPatterns_store_def)
  have e: "?s6 = s @ ([Array c] @ [Array d] @ e3 @ e4 @ e5 @ e6)" by simp
  have "groupsAt ?s6 (regularIncomeRef ?p)
          = Inr (regularIncome (analyzeTransactionPatterns (new_BankAnalyzer ts)))"
    using i6
    by (simp add: analyzeTransactionPatterns_def new_BankAnalyzer_def lodash_filter_AmountKey)
  moreover have "groupsAt ?s6 (recurringExpensesRef ?p)
          = Inr (recurringExpenses (analyzeTransactionPatterns (new_BankAnalyzer ts)))"
    using x
    by (simp add: analyzeTransactionPatterns_def new_BankAnalyzer_def lodash_filter_AmountKey)
  ultimately show ?thesis
    using run unfolding e by blast
qed

lemma detectFraudIndicators_store_refines:
  assumes r: "rowsAt s array = Inr ts"
    and v: "\<forall>t \<in> set ts. date t \<noteq> InvalidDate"
  shows "\<exists>p ext f. detectFraudIndicators_store tza (new_BankAnalyzerObject array) s = Inr (p, s @ ext)
           \<and> detectFraudIndicators tza (new_BankAnalyzer ts) = Inr f
           \<and> groupsAt (s @ ext) (highVelocityRef p) = Inr (highVelocity f)
           \<and> rowsAt (s @ ext) (unusualTimingRef p) = Inr (unusualTiming f)"
proof -
  let ?key = "\<lambda>t. ISOKey (projr (toISOString_slice13 (date t)))"
  let ?night = "\<lambda>t. js_ge (getHours tza (date t)) 23 \<or> js_le (getHours tza (date t)) 4"
  have k: "map_sum id ISOKey (toISOString_slice13 (date t)) = Inr (?key t)" if "t \<in> set ts" for t
  proof -
    from that v have "date t \<noteq> InvalidDate" by blast
    then show ?thesis by (cases "date t") simp_all
  qed
  have "\<exists>ext ext' grouped.
           groupBy_store (\<lambda>t. map_sum id ISOKey (toISOString_slice13 (date t))) array s
              = Inr (grouped, s @ ext)
           \<and> lodash_filter_store (\<lambda>group. 5 < length group) grouped (s @ ext)
              = Inr (length (s @ ext), s @ ext @ ext')
           \<and> groupsAt (s @ ext @ ext') (length (s @ ext))
              = Inr (lodash_filter keyIndex (\<lambda>group. 5 < length group) (groupBy ?key ts))"
    by (rule chain_store [OF r]) (simp_all add: k)
  then obtain e1 e2 g1 where
      1: "groupBy_store (\<lambda>t. map_sum id ISOKey (toISOString_slice13 (date t))) array s
              = Inr (g1, s @ e1)"
    and 2: "lodash_filter_store (\<lambda>group. 5 < length group) g1 (s @ e1)
              = Inr (length (s @ e1), s @ e1 @ e2)"
    and h: "groupsAt (s @ e1 @ e2) (length (s @ e1))
              = Inr (lodash_filter keyIndex (\<lambda>group. 5 < length group) (groupBy ?key ts))"
    by blast
  let ?s2 = "s @ e1 @ e2"
  have r2: "rowsAt ?s2 array = Inr ts" using r by (rule rowsAt_append)
  from Array_filter_rows [OF r2, of ?night]
  obtain u where 3: "Array_filter ?night array ?s2 = Inr (length ?s2, ?s2 @ [Array u])"
    and u: "rowsAt (?s2 @ [Array u]) (length ?s2) = Inr (filter ?night ts)" by blast
  let ?s3 = "?s2 @ [Array u]"
  have h3: "groupsAt ?s3 (length (s @ e1))
              = Inr (lodash_filter keyIndex (\<lambda>group. 5 < length group) (groupBy ?key ts))"
    using h by (simp add: groupsAt_append flip: append_assoc)
  let ?p = "\<lparr> highVelocityRef = length (s @ e1), unusualTimingRef = length ?s2 \<rparr>"
  have run: "detectFraudIndicators_store tza (new_BankAnalyzerObject array) s = Inr (?p, ?s3)"
    using 1 2 3 by (simp add: detectFraudIndicators_store_def new_BankAnalyzerObject_def Let_def)
  have e: "?s3 = s @ (e1 @ e2 @ [Array u])" by simp
  obtain f where f: "detectFraudIndicators tza (new_BankAnalyzer ts) = Inr f"
    and hv: "highVelocity f = lodash_filter noIndex (\<lambda>group. length group > 5)
               (groupBy (\<lambda>t. projr (toISOString_slice13 (date t))) ts)"
    and ut: "unusualTiming f = filter ?night ts"
    using detectFraudIndicators_new_valid [OF v, of tza] by blast
  have "groupsAt ?s3 (highVelocityRef ?p) = Inr (highVelocity f)"
    using h3 by (simp add: hv lodash_filter_ISOKey)
  moreover have "rowsAt ?s3 (unusualTimingRef ?p) = Inr (unusualTiming f)"
    using u by (simp add: ut)
  ultimately show ?thesis
    using run f unfolding e by blast
qed

lemma rowsAt_length:
  "rowsAt s a = Inr ts \<Longrightarrow> loadArray s a = Inr xs \<Longrightarrow> length xs = length ts"
  using rowsAt_D [of s a ts] loadRows_length [of s xs ts] by (auto simp del: loadArray.simps)

lemma loadArray_new: "loadArray (s @ Array d # ext) (length s) = Inr d"
  by (simp add: load_def)

lemma Array_push_first:
  "Array_push (length s) r (s @ Recommendations rs # rest)
   = Inr (s @ Recommendations (rs @ [r]) # rest)"
  by (simp add: Array_push_def load_def)

lemma Array_push_second:
  "Array_push (Suc (length s)) r (s @ c # Recommendations rs # rest)
   = Inr (s @ c # Recommendations (rs @ [r]) # rest)"
  by (simp add: Array_push_def load_def nth_append list_update_append)

lemma loadNumbers_new: "loadNumbers (s @ Numbers bs # ext) (length s) = Inr bs"
  by (simp add: load_def)

lemma analyzeBusinessOpportunities_store_refines:
  assumes r: "rowsAt s array = Inr ts"
  shows "\<exists>p ext. analyzeBusinessOpportunities_store (new_BankAnalyzerObject array) s = Inr (p, s @ ext)
           \<and> loadRecommendations (s @ ext) (crossSellRef p)
              = Inr (crossSell (analyzeBusinessOpportunities (new_BankAnalyzer ts)))
           \<and> loadRecommendations (s @ ext) (upSellRef p)
              = Inr (upSell (analyzeBusinessOpportunities (new_BankAnalyzer ts)))"
proof -
  let ?digital = "\<lambda>t. channel t \<in> set digitalChannels"
  let ?an = "new_BankAnalyzer ts"
  define s1 where "s1 = s @ [Numbers (map balance ts)]"
  define s2 where "s2 = s1 @ [Numbers (map balance ts)]"
  have 1: "Array_map balance array s = Inr (length s, s1)"
    using r by (simp add: Array_map_def alloc_def s1_def)
  have n1: "loadNumbers s1 (length s) = Inr (map balance ts)"
    unfolding s1_def by (rule loadNumbers_new)
  have r1: "rowsAt s1 array = Inr ts" unfolding s1_def using r by (rule rowsAt_append)
  have 2: "Array_map balance array s1 = Inr (length s1, s2)"
    using r1 by (simp add: Array_map_def alloc_def s2_def)
  have n2: "loadNumbers s2 (length s1) = Inr (map balance ts)"
    unfolding s2_def by (rule loadNumbers_new)
  have r2: "rowsAt s2 array = Inr ts" unfolding s2_def using r1 by (rule rowsAt_append)
  from Array_filter_rows [OF r2, of ?digital]
  obtain d where 3: "Array_filter ?digital array s2 = Inr (length s2, s2 @ [Array d])"
    and d: "rowsAt (s2 @ [Array d]) (length s2) = Inr (filter ?digital ts)" by blast
  define s3 where "s3 = s2 @ [Array d]"
  have a3: "loadArray s3 (length s2) = Inr d"
    unfolding s3_def by (rule loadArray_new)
  have r3: "rowsAt s3 array = Inr ts" unfolding s3_def using r2 by (rule rowsAt_append)
  from rowsAt_D [OF r3] obtain xs where xs: "loadArray s3 array = Inr xs"
    and rx: "loadRows s3 xs = Inr ts" by blast
  have lx: "length xs = length ts" using loadRows_length [OF rx] by simp
  have ld: "length d = length (filter ?digital ts)"
    using d a3 unfolding s3_def by (rule rowsAt_length [symmetric, THEN sym])
  let ?cross = "crossSell (analyzeBusinessOpportunities ?an)"
  let ?up = "upSell (analyzeBusinessOpportunities ?an)"
  let ?s8 = "s3 @ [Recommendations ?cross, Recommendations ?up]"
  let ?p = "\<lparr> crossSellRef = length s3, upSellRef = Suc (length s3) \<rparr>"
  have dt: "js_div (Number (of_nat (length d))) (length xs) = digitalTransactions ?an"
    by (simp add: digitalTransactions_def new_BankAnalyzer_def ld lx)
  have av: "lodash_mean (map balance ts) = averageBalance ?an"
    by (simp add: averageBalance_def new_BankAnalyzer_def)
  have mx: "lodash_max (map balance ts) = maxBalance ?an"
    by (simp add: maxBalance_def new_BankAnalyzer_def)
  have tr: "transactionsRef (new_BankAnalyzerObject array) = array"
    by (simp add: new_BankAnalyzerObject_def)
  have run: "analyzeBusinessOpportunities_store (new_BankAnalyzerObject array) s = Inr (?p, ?s8)"
    using 3 [folded s3_def]
    by (simp add: analyzeBusinessOpportunities_store_def tr 1 2 n1 n2 a3 xs dt av mx
        alloc_def Array_push_first Array_push_second opportunities_form
        del: loadNumbers.simps loadArray.simps js_div.simps)
  have e: "?s8 = s @ ([Numbers (map balance ts), Numbers (map balance ts), Array d,
                      Recommendations ?cross, Recommendations ?up])"
    by (simp add: s3_def s2_def s1_def)
  have "loadRecommendations ?s8 (crossSellRef ?p) = Inr ?cross"
    by (simp add: load_def nth_append)
  moreover have "loadRecommendations ?s8 (upSellRef ?p) = Inr ?up"
    by (simp add: load_def nth_append)
  ultimately show ?thesis
    using run unfolding e by blast
qed

lemma Patterns_eqI:
  "regularIncome x = c \<Longrightarrow> recurringExpenses x = u
   \<Longrightarrow> x = \<lparr> regularIncome = c, recurringExpenses = u \<rparr>"
  by (cases x) simp

lemma FraudIndicators_eqI:
  "highVelocity x = c \<Longrightarrow> unusualTiming x = u
   \<Longrightarrow> x = \<lparr> highVelocity = c, unusualTiming = u \<rparr>"
  by (cases x) simp

lemma analyze_store_refines:
  assumes r: "rowsAt s array = Inr txs"
    and v: "\<forall>t \<in> set txs. date t \<noteq> InvalidDate"
  shows "\<exists>res ext. analyze_store tza array s = Inr (res, s @ ext)
           \<and> resultAt (s @ ext) res = analyze tza txs"
proof -
  let ?an = "new_BankAnalyzerObject array"
  have tr: "transactionsRef ?an = array" by (simp add: new_BankAnalyzerObject_def)
  from analyzeTransactionPatterns_store_refines [of s ?an txs] r tr
  obtain p e1 where 1: "analyzeTransactionPatterns_store ?an s = Inr (p, s @ e1)"
    and p1: "groupsAt (s @ e1) (regularIncomeRef p)
              = Inr (regularIncome (analyzeTransactionPatterns (new_BankAnalyzer txs)))"
    and p2: "groupsAt (s @ e1) (recurringExpensesRef p)
              = Inr (recurringExpenses (analyzeTransactionPatterns (new_BankAnalyzer txs)))"
    by auto
  have r1: "rowsAt (s @ e1) array = Inr txs" using r by (rule rowsAt_append)
  from detectFraudIndicators_store_refines [OF r1 v, of tza]
  obtain f e2 fi where 2: "detectFraudIndicators_store tza ?an (s @ e1) = Inr (f, (s @ e1) @ e2)"
    and fi: "detectFraudIndicators tza (new_BankAnalyzer txs) = Inr fi"
    and f1: "groupsAt ((s @ e1) @ e2) (highVelocityRef f) = Inr (highVelocity fi)"
    and f2: "rowsAt ((s @ e1) @ e2) (unusualTimingRef f) = Inr (unusualTiming fi)"
    by blast
  have r2: "rowsAt ((s @ e1) @ e2) array = Inr txs" using r1 by (rule rowsAt_append)
  from analyzeBusinessOpportunities_store_refines [OF r2]
  obtain opp e3 where
      3: "analyzeBusinessOpportunities_store ?an ((s @ e1) @ e2) = Inr (opp, ((s @ e1) @ e2) @ e3)"
    and o1: "loadRecommendations (((s @ e1) @ e2) @ e3) (crossSellRef opp)
              = Inr (crossSell (analyzeBusinessOpportunities (new_BankAnalyzer txs)))"
    and o2: "loadRecommendations (((s @ e1) @ e2) @ e3) (upSellRef opp)
              = Inr (upSell (analyzeBusinessOpportunities (new_BankAnalyzer txs)))"
    by blast
  define s3 where "s3 = ((s @ e1) @ e2) @ e3"
  let ?res = "\<lparr> patternsRefs = p, fraudIndicatorsRefs = f, opportunitiesRefs = opp \<rparr>"
  have run: "analyze_store tza array s = Inr (?res, s3)"
    using 1 2 3 by (simp add: analyze_store_def s3_def)
  have p1': "groupsAt s3 (regularIncomeRef p)
              = Inr (regularIncome (analyzeTransactionPatterns (new_BankAnalyzer txs)))"
    using groupsAt_append [OF p1, of "e2 @ e3"] by (simp add: s3_def)
  have p2': "groupsAt s3 (recurringExpensesRef p)
              = Inr (recurringExpenses (analyzeTransactionPatterns (new_BankAnalyzer txs)))"
    using groupsAt_append [OF p2, of "e2 @ e3"] by (simp add: s3_def)
  have f1': "groupsAt s3 (highVelocityRef f) = Inr (highVelocity fi)"
    unfolding s3_def using f1 by (rule groupsAt_append)
  have f2': "rowsAt s3 (unusualTimingRef f) = Inr (unusualTiming fi)"
    unfolding s3_def using f2 by (rule rowsAt_append)
  have "resultAt s3 ?res = analyze tza txs"
    unfolding resultAt_def analyze_def
    by (simp add: p1' p2' f1' f2' o1 [folded s3_def] o2 [folded s3_def] fi Let_def
        del: loadRecommendations.simps)
  moreover have "s3 = s @ (e1 @ e2 @ e3)" by (simp add: s3_def)
  ultimately show ?thesis using run by metis
qed


subsection \<open>A run on an example store\<close>

lemma otherTypeStore_patterns:
  "analyzeTransactionPatterns_store (new_BankAnalyzerObject 6) otherTypeStore =
     Inr (\<lparr> regularIncomeRef = 11, recurringExpensesRef = 14 \<rparr>,
          otherTypeStore @
          [Array [3, 4, 5], Array [0, 2],
           Object [(AmountKey 700, 10)], Array [3, 4, 5], Array [10],
           Object [(AmountKey 1200, 13)], Array [0, 2], Array [13] ])"
  by (simp add: analyzeTransactionPatterns_store_def
     new_BankAnalyzerObject_def otherTypeStore_def otherTypeScenario_def
     Array_filter_def alloc_def load_def nth_append
     groupBy_store_def groupBy_round_def lodash_filter_store_def ownPropertyOrder_def
     arrayIndex_def
     transaction_def reversal_def)

lemma otherTypeStore_fraud:
  "detectFraudIndicators_store (\<lambda>t. 19800000) (new_BankAnalyzerObject 6)
     (otherTypeStore @
          [Array [3, 4, 5], Array [0, 2],
           Object [(AmountKey 700, 10)], Array [3, 4, 5], Array [10],
           Object [(AmountKey 1200, 13)], Array [0, 2], Array [13] ]) =
     Inr (\<lparr> highVelocityRef = 17, unusualTimingRef = 18 \<rparr>,
          otherTypeStore @
          [Array [3, 4, 5], Array [0, 2],
           Object [(AmountKey 700, 10)], Array [3, 4, 5], Array [10],
           Object [(AmountKey 1200, 13)], Array [0, 2], Array [13],
           Object [(ISOKey (HourKey 19737 17), 16)], Array [0, 1, 2, 3, 4, 5], Array [16],
           Array [0, 1, 2, 3, 4, 5] ])"
  by (simp add: detectFraudIndicators_store_def
     new_BankAnalyzerObject_def otherTypeStore_def otherTypeScenario_def
     Array_filter_def alloc_def load_def nth_append
     groupBy_store_def groupBy_round_def lodash_filter_store_def ownPropertyOrder_def
     noIndex_def fourDigitYear_def Day_def HourFromTime_def msPerDay_def msPerHour_def
     transaction_def reversal_def)

lemma otherTypeStore_opportunities:
  "analyzeBusinessOpportunities_store (new_BankAnalyzerObject 6)
     (otherTypeStore @
          [Array [3, 4, 5], Array [0, 2],
           Object [(AmountKey 700, 10)], Array [3, 4, 5], Array [10],
           Object [(AmountKey 1200, 13)], Array [0, 2], Array [13],
           Object [(ISOKey (HourKey 19737 17), 16)], Array [0, 1, 2, 3, 4, 5], Array [16],
           Array [0, 1, 2, 3, 4, 5] ]) =
     Inr (\<lparr> crossSellRef = 22, upSellRef = 23 \<rparr>, otherTypeStoreAfter)"
proof -
  have l7: "js_literal (7 / 10) < 1" unfolding js_literal_0_7 by simp
  show ?thesis
    using l7
    by (simp add: analyzeBusinessOpportunities_store_def otherTypeStoreAfter_def
     new_BankAnalyzerObject_def otherTypeStore_def otherTypeScenario_def
     Array_filter_def Array_map_def Array_push_def rowsAt_def alloc_def load_def nth_append
     digitalChannels_def lodash_mean_def baseSum_Cons baseSum_step_def
     toDouble_numeral toDouble_one
     transaction_def reversal_def)
qed

lemma otherTypeStore_analyze:
  "analyze_store (\<lambda>t. 19800000) 6 otherTypeStore =
     Inr (\<lparr> patternsRefs = \<lparr> regularIncomeRef = 11, recurringExpensesRef = 14 \<rparr>,
            fraudIndicatorsRefs = \<lparr> highVelocityRef = 17, unusualTimingRef = 18 \<rparr>,
            opportunitiesRefs = \<lparr> crossSellRef = 22, upSellRef = 23 \<rparr> \<rparr>,
          otherTypeStoreAfter)"
  using otherTypeStore_patterns otherTypeStore_fraud otherTypeStore_opportunities
  by (simp add: analyze_store_def)


section \<open>The claims\<close>

text \<open>
  Claim C1. Every group of \<^verbatim>\<open>regularIncome\<close> has at least three members, all of type
  Credit and all of one amount; every group of \<^verbatim>\<open>recurringExpenses\<close> has at least two
  members, all of type Debit and all of one amount. So no group below its threshold is in
  either output.
\<close>

theorem pattern_groups_typed_equal_amount_sized:
  "(\<forall>g \<in> set (regularIncome (analyzeTransactionPatterns (new_BankAnalyzer txs))).
      length g \<ge> 3 \<and> (\<forall>t \<in> set g. type t = ''Credit'') \<and> (\<exists>a. \<forall>t \<in> set g. amount t = a))
   \<and> (\<forall>g \<in> set (recurringExpenses (analyzeTransactionPatterns (new_BankAnalyzer txs))).
      length g \<ge> 2 \<and> (\<forall>t \<in> set g. type t = ''Debit'') \<and> (\<exists>a. \<forall>t \<in> set g. amount t = a))"
proof (rule conjI; rule ballI)
  fix g assume "g \<in> set (regularIncome (analyzeTransactionPatterns (new_BankAnalyzer txs)))"
  then obtain a where "g = filter (\<lambda>t. type t = ''Credit'' \<and> amount t = a) txs" "length g \<ge> 3"
    by (auto simp: analyzeTransactionPatterns_def new_BankAnalyzer_def pattern_group_iff)
  then show "length g \<ge> 3 \<and> (\<forall>t \<in> set g. type t = ''Credit'') \<and> (\<exists>a. \<forall>t \<in> set g. amount t = a)"
    by auto
next
  fix g assume "g \<in> set (recurringExpenses (analyzeTransactionPatterns (new_BankAnalyzer txs)))"
  then obtain a where "g = filter (\<lambda>t. type t = ''Debit'' \<and> amount t = a) txs" "length g \<ge> 2"
    by (auto simp: analyzeTransactionPatterns_def new_BankAnalyzer_def pattern_group_iff)
  then show "length g \<ge> 2 \<and> (\<forall>t \<in> set g. type t = ''Debit'') \<and> (\<exists>a. \<forall>t \<in> set g. amount t = a)"
    by auto
qed

text \<open>
  The salary statement has a group in each output.
\<close>

theorem pattern_groups_typed_equal_amount_sized_witness:
  "[transaction 1704103200000 50000 ''Credit'' ''Net Banking Transfer'' 60000,
    transaction 1706781600000 50000 ''Credit'' ''Net Banking Transfer'' 108800,
    transaction 1709287200000 50000 ''Credit'' ''Net Banking Transfer'' 157600]
     \<in> set (regularIncome (analyzeTransactionPatterns (new_BankAnalyzer salaryScenario)))
   \<and> list_all (\<lambda>g. length g \<ge> 3 \<and> list_all (\<lambda>t. type t = ''Credit'') g)
        (regularIncome (analyzeTransactionPatterns (new_BankAnalyzer salaryScenario)))
   \<and> [transaction 1704448800000 1200 ''Debit'' ''UPI'' 58800,
       transaction 1704448800000 1200 ''Debit'' ''UPI'' 58800]
     \<in> set (recurringExpenses (analyzeTransactionPatterns (new_BankAnalyzer salaryScenario)))
   \<and> list_all (\<lambda>g. length g \<ge> 2 \<and> list_all (\<lambda>t. type t = ''Debit'') g)
        (recurringExpenses (analyzeTransactionPatterns (new_BankAnalyzer salaryScenario)))"
proof -
  have "[transaction 1704103200000 50000 ''Credit'' ''Net Banking Transfer'' 60000,
    transaction 1706781600000 50000 ''Credit'' ''Net Banking Transfer'' 108800,
    transaction 1709287200000 50000 ''Credit'' ''Net Banking Transfer'' 157600]
     \<in> set (regularIncome (analyzeTransactionPatterns (new_BankAnalyzer salaryScenario)))"
    by (simp add: salaryScenario_patterns)
  moreover have "[transaction 1704448800000 1200 ''Debit'' ''UPI'' 58800,
       transaction 1704448800000 1200 ''Debit'' ''UPI'' 58800]
     \<in> set (recurringExpenses (analyzeTransactionPatterns (new_BankAnalyzer salaryScenario)))"
    by (simp add: salaryScenario_patterns)
  ultimately show ?thesis
    unfolding list_all_iff using pattern_groups_typed_equal_amount_sized [of salaryScenario] by blast
qed

text \<open>
  Claim C2. For the empty transaction list the assembled result exists (no exception) and
  all six of its lists are empty. The digital ratio is \<^verbatim>\<open>0 / 0 = NaN\<close>, the mean balance
  is \<^verbatim>\<open>NaN\<close> and the greatest balance is \<^verbatim>\<open>undefined\<close>; each comparison with its threshold
  (for the ratio both the rational 7/10 and the double that \<^verbatim>\<open>0.7\<close> denotes) is false, so
  no rule fires.
\<close>

theorem empty_statement_result:
  "analyze tza [] =
     Inr \<lparr> patterns = \<lparr> regularIncome = [], recurringExpenses = [] \<rparr>,
           fraudIndicators = \<lparr> highVelocity = [], unusualTiming = [] \<rparr>,
           opportunities = \<lparr> crossSell = [], upSell = [] \<rparr> \<rparr>
   \<and> digitalTransactions (new_BankAnalyzer []) = NaN
   \<and> js_gt (digitalTransactions (new_BankAnalyzer [])) (7 / 10) = False
   \<and> js_gt (digitalTransactions (new_BankAnalyzer [])) (js_literal (7 / 10)) = False
   \<and> averageBalance (new_BankAnalyzer []) = NaN
   \<and> js_gt (averageBalance (new_BankAnalyzer [])) 100000 = False
   \<and> maxBalance (new_BankAnalyzer []) = Undefined
   \<and> js_gt (maxBalance (new_BankAnalyzer [])) 500000 = False"
  by (simp add: analyze_def new_BankAnalyzer_def analyzeTransactionPatterns_def
      detectFraudIndicators_def analyzeBusinessOpportunities_def digitalTransactions_def
      averageBalance_def maxBalance_def lodash_mean_def
      lodash_filter_def ownPropertyOrder_def groupBy_def)

text \<open>
  Claim C3 says that for every transaction list an hour bucket is in \<^verbatim>\<open>highVelocity\<close>
  exactly when it has more than 5 members, and that the members of a flagged bucket share
  the hour. The key of the code is the first 13 characters of the ISO string, and for a year
  of more than four digits these hold no hour. Six transactions of 1 January 10000, two
  hours apart, are in six different hours, each hour bucket has one member, and all six are
  reported as one group.
\<close>

theorem highVelocity_iff_bucket_exceeds_limit_counterexample:
  "list_all (\<lambda>t. date t \<noteq> InvalidDate) expandedYearScenario
   \<and> detectFraudIndicators (\<lambda>t. 0) (new_BankAnalyzer expandedYearScenario)
        = Inr \<lparr> highVelocity = [expandedYearScenario],
                unusualTiming = take 3 expandedYearScenario \<rparr>
   \<and> map (\<lambda>t. truncatedToHour (date t)) expandedYearScenario
       = [Some 70389528, Some 70389530, Some 70389532,
          Some 70389534, Some 70389536, Some 70389538]
   \<and> list_all (\<lambda>t. length (filter (\<lambda>t'. truncatedToHour (date t') = truncatedToHour (date t))
                              expandedYearScenario) = 1) expandedYearScenario"
proof -
  have v: "list_all (\<lambda>t. date t \<noteq> InvalidDate) expandedYearScenario"
    by (simp add: expandedYearScenario_def transaction_def)
  have e: "detectFraudIndicators (\<lambda>t. 0) (new_BankAnalyzer expandedYearScenario)
        = Inr \<lparr> highVelocity = [expandedYearScenario],
                unusualTiming = take 3 expandedYearScenario \<rparr>"
    by (simp add: detectFraudIndicators_def new_BankAnalyzer_def expandedYearScenario_def
        transaction_def lodash_filter_def ownPropertyOrder_def noIndex_def fourDigitYear_def
        Day_def HourFromTime_def msPerDay_def msPerHour_def)
  have h: "map (\<lambda>t. truncatedToHour (date t)) expandedYearScenario
       = [Some 70389528, Some 70389530, Some 70389532,
          Some 70389534, Some 70389536, Some 70389538]"
    by (simp add: expandedYearScenario_def transaction_def msPerHour_def)
  have o: "list_all (\<lambda>t. length (filter (\<lambda>t'. truncatedToHour (date t') = truncatedToHour (date t))
                              expandedYearScenario) = 1) expandedYearScenario"
    by (simp add: expandedYearScenario_def transaction_def msPerHour_def)
  show ?thesis by (intro conjI v e h o)
qed

text \<open>
  Claim C3, amended. For a list of transactions whose dates are valid and lie in the years
  0000 to 9999 the fraud screen returns, and for every hour \<open>h\<close> (the time truncated to the
  hour) the bucket of \<open>h\<close>, that is all transactions of the input in that hour, is an entry of
  \<^verbatim>\<open>highVelocity\<close> exactly when it has more than 5 members. Every entry is such a full
  bucket, all members of an entry have the same truncated-to-hour time, and no bucket is
  listed twice.
\<close>

theorem highVelocity_iff_bucket_exceeds_limit:
  assumes "\<forall>t \<in> set txs. fourDigitYearDate (date t)"
  shows "\<exists>f. detectFraudIndicators tza (new_BankAnalyzer txs) = Inr f
    \<and> (\<forall>h. filter (\<lambda>t. truncatedToHour (date t) = Some h) txs \<in> set (highVelocity f)
            \<longleftrightarrow> length (filter (\<lambda>t. truncatedToHour (date t) = Some h) txs) > 5)
    \<and> (\<forall>g \<in> set (highVelocity f).
          \<exists>h. g = filter (\<lambda>t. truncatedToHour (date t) = Some h) txs
             \<and> (\<forall>t \<in> set g. truncatedToHour (date t) = Some h))
    \<and> distinct (highVelocity f)"
proof -
  let ?hour = "\<lambda>t. truncatedToHour (date t)"
  let ?hv = "lodash_filter noIndex (\<lambda>group. length group > 5)
               (groupBy (\<lambda>t. projr (toISOString_slice13 (date t))) txs)"
  have v: "\<forall>t \<in> set (transactions (new_BankAnalyzer txs)). date t \<noteq> InvalidDate"
    using assms fourDigitYearDate_valid by (simp add: new_BankAnalyzer_def)
  obtain f where f: "detectFraudIndicators tza (new_BankAnalyzer txs) = Inr f"
    and hv: "highVelocity f = ?hv"
    using detectFraudIndicators_valid [OF v, of tza] by (simp add: new_BankAnalyzer_def)
  have iff: "g \<in> set (highVelocity f) \<longleftrightarrow> (\<exists>h. g = filter (\<lambda>t. ?hour t = Some h) txs \<and> length g > 5)" for g
    unfolding hv using highVelocity_iff_hour [OF assms] .
  have 1: "\<forall>h. filter (\<lambda>t. ?hour t = Some h) txs \<in> set (highVelocity f)
            \<longleftrightarrow> length (filter (\<lambda>t. ?hour t = Some h) txs) > 5"
  proof
    fix h
    show "filter (\<lambda>t. ?hour t = Some h) txs \<in> set (highVelocity f)
            \<longleftrightarrow> length (filter (\<lambda>t. ?hour t = Some h) txs) > 5"
      unfolding iff by metis
  qed
  have 2: "\<forall>g \<in> set (highVelocity f).
          \<exists>h. g = filter (\<lambda>t. ?hour t = Some h) txs \<and> (\<forall>t \<in> set g. ?hour t = Some h)"
  proof
    fix g assume "g \<in> set (highVelocity f)"
    then obtain h where h: "g = filter (\<lambda>t. ?hour t = Some h) txs" using iff by blast
    then have "\<forall>t \<in> set g. ?hour t = Some h" by simp
    with h show "\<exists>h. g = filter (\<lambda>t. ?hour t = Some h) txs \<and> (\<forall>t \<in> set g. ?hour t = Some h)"
      by blast
  qed
  have 3: "distinct (highVelocity f)"
    unfolding hv by (rule lodash_filter_distinct)
  from f 1 2 3 show ?thesis by blast
qed

text \<open>
  Six transactions in one hour and a seventh in the next: the six are reported.
\<close>

theorem highVelocity_iff_bucket_exceeds_limit_witness:
  "list_all (\<lambda>t. fourDigitYearDate (date t)) burstScenario
   \<and> (\<exists>f. detectFraudIndicators (\<lambda>t. 19800000) (new_BankAnalyzer burstScenario) = Inr f
        \<and> highVelocity f = [take 6 burstScenario]
        \<and> length (filter (\<lambda>t. truncatedToHour (date t) = Some 473698) burstScenario) > 5
        \<and> filter (\<lambda>t. truncatedToHour (date t) = Some 473698) burstScenario
             \<in> set (highVelocity f)
        \<and> filter (\<lambda>t. truncatedToHour (date t) = Some 473699) burstScenario
             \<notin> set (highVelocity f))"
proof -
  have v: "\<forall>t \<in> set burstScenario. fourDigitYearDate (date t)"
    by (simp add: burstScenario_def transaction_def fourDigitYear_def)
  have e: "detectFraudIndicators (\<lambda>t. 19800000) (new_BankAnalyzer burstScenario)
        = Inr \<lparr> highVelocity = [take 6 burstScenario], unusualTiming = [] \<rparr>"
    by (simp add: detectFraudIndicators_def new_BankAnalyzer_def burstScenario_def
        transaction_def lodash_filter_def ownPropertyOrder_def noIndex_def fourDigitYear_def
        Day_def HourFromTime_def msPerDay_def msPerHour_def)
  have n: "length (filter (\<lambda>t. truncatedToHour (date t) = Some 473698) burstScenario) > 5"
    by (simp add: burstScenario_def transaction_def msPerHour_def)
  have m: "\<not> length (filter (\<lambda>t. truncatedToHour (date t) = Some 473699) burstScenario) > 5"
    by (simp add: burstScenario_def transaction_def msPerHour_def)
  from highVelocity_iff_bucket_exceeds_limit [OF v, of "\<lambda>t. 19800000"] e n m have
    "filter (\<lambda>t. truncatedToHour (date t) = Some 473698) burstScenario
       \<in> set [take 6 burstScenario]
     \<and> filter (\<lambda>t. truncatedToHour (date t) = Some 473699) burstScenario
       \<notin> set [take 6 burstScenario]"
    by auto
  with v e n show ?thesis unfolding list_all_iff by simp
qed

text \<open>
  Claim C4. For a list of transactions with valid dates, a transaction is in
  \<^verbatim>\<open>unusualTiming\<close> exactly when it is in the input and its local hour is one of 23, 0, 1, 2,
  3, 4; a transaction whose local hour is from 5 to 22 is never in it.
\<close>

theorem unusualTiming_iff_night_hour:
  assumes "\<forall>t \<in> set txs. date t \<noteq> InvalidDate"
  shows "\<exists>f. detectFraudIndicators tza (new_BankAnalyzer txs) = Inr f
    \<and> (\<forall>t. t \<in> set (unusualTiming f) \<longleftrightarrow>
            t \<in> set txs \<and> (\<exists>h \<in> {23, 0, 1, 2, 3, 4}. getHours tza (date t) = Number (of_int h)))
    \<and> (\<forall>t \<in> set (unusualTiming f). \<forall>h \<in> {5 .. 22}. getHours tza (date t) \<noteq> Number (of_int h))"
proof -
  let ?sel = "\<lambda>t. js_ge (getHours tza (date t)) 23 \<or> js_le (getHours tza (date t)) 4"
  let ?night = "\<lambda>t. \<exists>h \<in> {23, 0, 1, 2, 3, 4}. getHours tza (date t) = Number (of_int h)"
  have v: "\<forall>t \<in> set (transactions (new_BankAnalyzer txs)). date t \<noteq> InvalidDate"
    using assms by (simp add: new_BankAnalyzer_def)
  obtain f where f: "detectFraudIndicators tza (new_BankAnalyzer txs) = Inr f"
    and ut: "unusualTiming f = filter ?sel txs"
    using detectFraudIndicators_valid [OF v, of tza] by (simp add: new_BankAnalyzer_def)
  have sel: "?sel t \<longleftrightarrow> ?night t" if "t \<in> set txs" for t
    using assms that by (intro suspicious_hour_iff) blast
  have 1: "\<forall>t. t \<in> set (unusualTiming f) \<longleftrightarrow> t \<in> set txs \<and> ?night t"
  proof
    fix t
    have "t \<in> set (unusualTiming f) \<longleftrightarrow> t \<in> set txs \<and> ?sel t"
      by (simp only: ut set_filter mem_Collect_eq)
    also have "\<dots> \<longleftrightarrow> t \<in> set txs \<and> ?night t"
      using sel [of t] by (rule conj_cong [OF refl])
    finally show "t \<in> set (unusualTiming f) \<longleftrightarrow> t \<in> set txs \<and> ?night t" .
  qed
  have 2: "\<forall>t \<in> set (unusualTiming f). \<forall>h \<in> {5 .. 22}. getHours tza (date t) \<noteq> Number (of_int h)"
  proof (intro ballI)
    fix t and h :: int
    assume t: "t \<in> set (unusualTiming f)" and h: "h \<in> {5 .. 22}"
    from t 1 obtain h' :: int where h': "h' \<in> {23, 0, 1, 2, 3, 4}" "getHours tza (date t) = Number (of_int h')"
      by blast
    have "h' \<noteq> h" using h h'(1) by auto
    then show "getHours tza (date t) \<noteq> Number (of_int h)"
      by (simp add: h'(2))
  qed
  from f 1 2 show ?thesis by blast
qed

text \<open>
  Of the local hours 23, 0, 4, 5, 22 and 23 the fourth and fifth are not flagged.
\<close>

theorem unusualTiming_iff_night_hour_witness:
  "list_all (\<lambda>t. date t \<noteq> InvalidDate) nightScenario
   \<and> map (\<lambda>t. getHours (\<lambda>t. 19800000) (date t)) nightScenario
       = [Number 23, Number 0, Number 4, Number 5, Number 22, Number 23]
   \<and> (\<exists>f. detectFraudIndicators (\<lambda>t. 19800000) (new_BankAnalyzer nightScenario) = Inr f
        \<and> unusualTiming f
            = [nightScenario ! 0, nightScenario ! 1, nightScenario ! 2, nightScenario ! 5]
        \<and> nightScenario ! 3 \<notin> set (unusualTiming f)
        \<and> nightScenario ! 4 \<notin> set (unusualTiming f))"
proof -
  have v: "\<forall>t \<in> set nightScenario. date t \<noteq> InvalidDate"
    by (simp add: nightScenario_def transaction_def)
  have h: "map (\<lambda>t. getHours (\<lambda>t. 19800000) (date t)) nightScenario
       = [Number 23, Number 0, Number 4, Number 5, Number 22, Number 23]"
    by (simp add: nightScenario_def transaction_def HourFromTime_def msPerHour_def)
  have e: "detectFraudIndicators (\<lambda>t. 19800000) (new_BankAnalyzer nightScenario)
        = Inr \<lparr> highVelocity = [],
                unusualTiming = [nightScenario ! 0, nightScenario ! 1, nightScenario ! 2, nightScenario ! 5] \<rparr>"
    by (simp add: detectFraudIndicators_def new_BankAnalyzer_def nightScenario_def
        transaction_def lodash_filter_def ownPropertyOrder_def noIndex_def fourDigitYear_def
        Day_def HourFromTime_def msPerDay_def msPerHour_def)
  have g3: "getHours (\<lambda>t. 19800000) (date (nightScenario ! 3)) = Number (of_int 5)"
    by (simp add: nightScenario_def transaction_def HourFromTime_def msPerHour_def)
  have g4: "getHours (\<lambda>t. 19800000) (date (nightScenario ! 4)) = Number (of_int 22)"
    by (simp add: nightScenario_def transaction_def HourFromTime_def msPerHour_def)
  obtain f where f: "detectFraudIndicators (\<lambda>t. 19800000) (new_BankAnalyzer nightScenario) = Inr f"
    and r: "\<forall>t \<in> set (unusualTiming f). \<forall>h \<in> {5 .. 22}.
              getHours (\<lambda>t. 19800000) (date t) \<noteq> Number (of_int h)"
    using unusualTiming_iff_night_hour [OF v, of "\<lambda>t. 19800000"] by blast
  have n3: "nightScenario ! 3 \<notin> set (unusualTiming f)"
  proof
    assume a: "nightScenario ! 3 \<in> set (unusualTiming f)"
    have "(5::int) \<in> {5 .. 22}" by simp
    with r a have "getHours (\<lambda>t. 19800000) (date (nightScenario ! 3)) \<noteq> Number (of_int 5)"
      by blast
    with g3 show False by blast
  qed
  have n4: "nightScenario ! 4 \<notin> set (unusualTiming f)"
  proof
    assume a: "nightScenario ! 4 \<in> set (unusualTiming f)"
    have "(22::int) \<in> {5 .. 22}" by simp
    with r a have "getHours (\<lambda>t. 19800000) (date (nightScenario ! 4)) \<noteq> Number (of_int 22)"
      by blast
    with g4 show False by blast
  qed
  from f e have u: "unusualTiming f
        = [nightScenario ! 0, nightScenario ! 1, nightScenario ! 2, nightScenario ! 5]"
    by auto
  from v have "list_all (\<lambda>t. date t \<noteq> InvalidDate) nightScenario"
    unfolding list_all_iff .
  with h f u n3 n4 show ?thesis by blast
qed

text \<open>
  Claim C5 says that the investment recommendation is appended exactly when the mean of
  the balances is above 100000. The code adds the balances as doubles from left to right and
  divides the rounded sum. For the balances 171046.67, 6568.34 and 122384.99 (the doubles of
  these literals) the mean of the three numbers is above 100000, the code computes exactly
  100000, and nothing is appended. The same three balances with the last two exchanged give
  the recommendation, so the rule is no predicate on the balances as a collection of
  numbers.
\<close>

theorem opportunity_rules_fire_independently_counterexample:
  "100000 < sum_list (map balance roundingScenario) / of_nat (length roundingScenario)
   \<and> averageBalance (new_BankAnalyzer roundingScenario) = Number 100000
   \<and> crossSell (analyzeBusinessOpportunities (new_BankAnalyzer roundingScenario)) = []
   \<and> mset (map balance roundingScenarioPermuted) = mset (map balance roundingScenario)
   \<and> crossSell (analyzeBusinessOpportunities (new_BankAnalyzer roundingScenarioPermuted))
       = [mutualFundInvestment]"
proof -
  have 1: "100000 < sum_list (map balance roundingScenario) / of_nat (length roundingScenario)"
    unfolding roundingScenario_balances roundingScenario_length by simp
  have d: "\<not> js_gt (digitalTransactions (new_BankAnalyzer roundingScenario)) (js_literal (7 / 10))"
    by (simp add: digital_rule_exact roundingScenario_length)
       (simp add: roundingScenario_def transaction_def digitalChannels_def)
  have 3: "crossSell (analyzeBusinessOpportunities (new_BankAnalyzer roundingScenario)) = []"
    using d by (simp add: opportunities_form roundingScenario_mean)
  have 4: "mset (map balance roundingScenarioPermuted) = mset (map balance roundingScenario)"
    unfolding roundingScenario_balances by simp
  have d': "\<not> js_gt (digitalTransactions (new_BankAnalyzer roundingScenarioPermuted))
                (js_literal (7 / 10))"
    by (simp add: digital_rule_exact roundingScenario_length)
       (simp add: roundingScenarioPermuted_def transaction_def digitalChannels_def)
  have 5: "crossSell (analyzeBusinessOpportunities (new_BankAnalyzer roundingScenarioPermuted))
       = [mutualFundInvestment]"
    using d' by (simp add: opportunities_form roundingScenarioPermuted_mean)
  show ?thesis by (intro conjI 1 roundingScenario_mean 3 4 5)
qed

text \<open>
  Claim C5, amended. The two arrays of recommendations are what three independent rules
  give, for an array of fewer than \<open>2^32\<close> transactions (every JavaScript array is):
  \<^verbatim>\<open>crossSell\<close> is the card recommendation (confidence 0.8) when the share of the
  transactions on a digital channel is above 7/10, followed by the investment recommendation
  (confidence 0.75) when the mean balance as the code computes it is above 100000: the
  balances added as doubles from left to right, each sum rounded, and the last sum divided
  by the count and rounded. \<^verbatim>\<open>upSell\<close> is the premium account recommendation (eligibility
  0.9) when the greatest balance is above 500000. On the empty list no rule fires. The
  scores are the doubles of the literals.
\<close>

theorem opportunity_rules_fire_independently:
  assumes "length txs < 2 ^ 32"
  shows "crossSell (analyzeBusinessOpportunities (new_BankAnalyzer txs)) =
     (if txs \<noteq> [] \<and>
         of_nat (length (filter (\<lambda>t. channel t \<in> {''Net Banking Transfer'', ''UPI'', ''Card''}) txs))
           / of_nat (length txs) > (7 / 10 :: rat)
      then [CrossSell ''Premium Credit Card'' (js_literal (8 / 10))
              ''High digital transaction usage indicates comfort with cards'']
      else [])
     @ (if txs \<noteq> [] \<and>
           js_gt (js_div (foldl js_add (Number (balance (hd txs))) (map balance (tl txs)))
                    (length txs)) 100000
        then [CrossSell ''Mutual Fund Investment'' (js_literal (75 / 100))
                ''Maintains healthy average balance'']
        else [])
   \<and> upSell (analyzeBusinessOpportunities (new_BankAnalyzer txs)) =
     (if txs \<noteq> [] \<and> Max (balance ` set txs) > 500000
      then [UpSell ''Premium Banking Account'' (js_literal (9 / 10))
              ''High value transactions and balance maintenance'']
      else [])"
proof (cases "txs = []")
  case True
  then show ?thesis
    by (simp add: opportunities_form digital_rule_exact peak_rule_exact averageBalance_empty)
next
  case False
  have d: "js_gt (digitalTransactions (new_BankAnalyzer txs)) (js_literal (7 / 10)) \<longleftrightarrow>
         (7 / 10 :: rat) < of_nat (length (filter (\<lambda>t. channel t \<in> {''Net Banking Transfer'', ''UPI'', ''Card''}) txs))
                           / of_nat (length txs)"
    using digital_rule_exact [OF assms] False by (simp add: digitalChannels_def)
  show ?thesis
    unfolding opportunities_form d peak_rule_exact averageBalance_code [OF False]
    using False
    by (simp add: premiumCreditCard_def mutualFundInvestment_def premiumBankingAccount_def)
qed

text \<open>
  A mean balance of 150000, a greatest balance of 600000 and four of five transactions
  on digital channels: all three recommendations.
\<close>

theorem opportunity_rules_fire_independently_witness:
  "length affluentScenario < 2 ^ 32
   \<and> analyzeBusinessOpportunities (new_BankAnalyzer affluentScenario) =
     \<lparr> crossSell = [premiumCreditCard, mutualFundInvestment], upSell = [premiumBankingAccount] \<rparr>"
proof -
  have l: "length affluentScenario < 2 ^ 32" by (simp add: affluentScenario_def)
  have "crossSell (analyzeBusinessOpportunities (new_BankAnalyzer affluentScenario))
          = [premiumCreditCard, mutualFundInvestment]
        \<and> upSell (analyzeBusinessOpportunities (new_BankAnalyzer affluentScenario))
          = [premiumBankingAccount]"
    using opportunity_rules_fire_independently [OF l]
    by (simp add: affluentScenario_def transaction_def premiumCreditCard_def
        mutualFundInvestment_def premiumBankingAccount_def toDouble_numeral)
  with l show ?thesis
    by (cases "analyzeBusinessOpportunities (new_BankAnalyzer affluentScenario)") simp
qed

text \<open>
  Claim C6 says that the two outputs are mappings keyed by the amount. They are arrays:
  \<^verbatim>\<open>_.filter\<close> drops the keys of the grouped object. For the salary statement the only key
  of each output is 0, and reading the key 50000, or 1200, gives \<^verbatim>\<open>undefined\<close>.
\<close>

theorem patterns_one_group_per_qualifying_amount_counterexample:
  "Object_keys (regularIncome (analyzeTransactionPatterns (new_BankAnalyzer salaryScenario))) = [0]
   \<and> 50000 \<notin> set (Object_keys (regularIncome (analyzeTransactionPatterns (new_BankAnalyzer salaryScenario))))
   \<and> array_get (regularIncome (analyzeTransactionPatterns (new_BankAnalyzer salaryScenario))) 50000 = None
   \<and> Object_keys (recurringExpenses (analyzeTransactionPatterns (new_BankAnalyzer salaryScenario))) = [0]
   \<and> 1200 \<notin> set (Object_keys (recurringExpenses (analyzeTransactionPatterns (new_BankAnalyzer salaryScenario))))
   \<and> array_get (recurringExpenses (analyzeTransactionPatterns (new_BankAnalyzer salaryScenario))) 1200 = None"
  by (simp add: analyzeTransactionPatterns_def new_BankAnalyzer_def salaryScenario_def
      transaction_def lodash_filter_def ownPropertyOrder_def groupBy_def arrayIndex_def
      Object_keys_def array_get_def)

text \<open>
  Claim C6, amended. The two outputs are arrays of groups with one entry for each
  qualifying amount: the Credit transactions of an amount are an entry of
  \<^verbatim>\<open>regularIncome\<close> exactly when there are at least 3 of them, the Debit transactions of an
  amount are an entry of \<^verbatim>\<open>recurringExpenses\<close> exactly when there are at least 2, every entry
  is such a group, and no entry is repeated. For the salary statement \<^verbatim>\<open>regularIncome\<close> has
  exactly one entry, the three credits of 50000, and \<^verbatim>\<open>recurringExpenses\<close> has exactly one
  entry, the two debits of 1200.
\<close>

theorem patterns_one_group_per_qualifying_amount:
  "(\<forall>a. filter (\<lambda>t. type t = ''Credit'' \<and> amount t = a) txs
           \<in> set (regularIncome (analyzeTransactionPatterns (new_BankAnalyzer txs)))
        \<longleftrightarrow> length (filter (\<lambda>t. type t = ''Credit'' \<and> amount t = a) txs) \<ge> 3)
   \<and> (\<forall>a. filter (\<lambda>t. type t = ''Debit'' \<and> amount t = a) txs
           \<in> set (recurringExpenses (analyzeTransactionPatterns (new_BankAnalyzer txs)))
        \<longleftrightarrow> length (filter (\<lambda>t. type t = ''Debit'' \<and> amount t = a) txs) \<ge> 2)
   \<and> (\<forall>g \<in> set (regularIncome (analyzeTransactionPatterns (new_BankAnalyzer txs))).
         \<exists>a. g = filter (\<lambda>t. type t = ''Credit'' \<and> amount t = a) txs)
   \<and> (\<forall>g \<in> set (recurringExpenses (analyzeTransactionPatterns (new_BankAnalyzer txs))).
         \<exists>a. g = filter (\<lambda>t. type t = ''Debit'' \<and> amount t = a) txs)
   \<and> distinct (regularIncome (analyzeTransactionPatterns (new_BankAnalyzer txs)))
   \<and> distinct (recurringExpenses (analyzeTransactionPatterns (new_BankAnalyzer txs)))
   \<and> regularIncome (analyzeTransactionPatterns (new_BankAnalyzer salaryScenario)) =
       [ [transaction 1704103200000 50000 ''Credit'' ''Net Banking Transfer'' 60000,
         transaction 1706781600000 50000 ''Credit'' ''Net Banking Transfer'' 108800,
         transaction 1709287200000 50000 ''Credit'' ''Net Banking Transfer'' 157600] ]
   \<and> recurringExpenses (analyzeTransactionPatterns (new_BankAnalyzer salaryScenario)) =
       [ [transaction 1704448800000 1200 ''Debit'' ''UPI'' 58800,
         transaction 1704448800000 1200 ''Debit'' ''UPI'' 58800] ]"
proof -
  have ri: "regularIncome (analyzeTransactionPatterns (new_BankAnalyzer txs)) =
      lodash_filter arrayIndex (\<lambda>group. length group \<ge> Suc 2)
        (groupBy amount (filter (\<lambda>t. type t = ''Credit'') txs))"
    by (simp add: analyzeTransactionPatterns_def new_BankAnalyzer_def numeral_3_eq_3)
  have re: "recurringExpenses (analyzeTransactionPatterns (new_BankAnalyzer txs)) =
      lodash_filter arrayIndex (\<lambda>group. length group \<ge> Suc 1)
        (groupBy amount (filter (\<lambda>t. type t = ''Debit'') txs))"
    by (simp add: analyzeTransactionPatterns_def new_BankAnalyzer_def numeral_2_eq_2)
  have 1: "\<forall>a. filter (\<lambda>t. type t = ''Credit'' \<and> amount t = a) txs
           \<in> set (regularIncome (analyzeTransactionPatterns (new_BankAnalyzer txs)))
        \<longleftrightarrow> length (filter (\<lambda>t. type t = ''Credit'' \<and> amount t = a) txs) \<ge> 3"
    unfolding ri pattern_group_full by (simp add: numeral_3_eq_3)
  have 2: "\<forall>a. filter (\<lambda>t. type t = ''Debit'' \<and> amount t = a) txs
           \<in> set (recurringExpenses (analyzeTransactionPatterns (new_BankAnalyzer txs)))
        \<longleftrightarrow> length (filter (\<lambda>t. type t = ''Debit'' \<and> amount t = a) txs) \<ge> 2"
    unfolding re pattern_group_full by (simp add: numeral_2_eq_2)
  have 3: "\<forall>g \<in> set (regularIncome (analyzeTransactionPatterns (new_BankAnalyzer txs))).
         \<exists>a. g = filter (\<lambda>t. type t = ''Credit'' \<and> amount t = a) txs"
    unfolding ri using pattern_group_iff by blast
  have 4: "\<forall>g \<in> set (recurringExpenses (analyzeTransactionPatterns (new_BankAnalyzer txs))).
         \<exists>a. g = filter (\<lambda>t. type t = ''Debit'' \<and> amount t = a) txs"
    unfolding re using pattern_group_iff by blast
  have 5: "distinct (regularIncome (analyzeTransactionPatterns (new_BankAnalyzer txs)))"
    unfolding ri by (rule lodash_filter_distinct)
  have 6: "distinct (recurringExpenses (analyzeTransactionPatterns (new_BankAnalyzer txs)))"
    unfolding re by (rule lodash_filter_distinct)
  show ?thesis
    using 1 2 3 4 5 6 by (simp only: salaryScenario_patterns Patterns.simps simp_thms)
qed

text \<open>
  The two qualifying amounts of the salary statement.
\<close>

theorem patterns_one_group_per_qualifying_amount_witness:
  "length (filter (\<lambda>t. type t = ''Credit'' \<and> amount t = 50000) salaryScenario) \<ge> 3
   \<and> filter (\<lambda>t. type t = ''Credit'' \<and> amount t = 50000) salaryScenario
       \<in> set (regularIncome (analyzeTransactionPatterns (new_BankAnalyzer salaryScenario)))
   \<and> length (filter (\<lambda>t. type t = ''Debit'' \<and> amount t = 1200) salaryScenario) \<ge> 2
   \<and> filter (\<lambda>t. type t = ''Debit'' \<and> amount t = 1200) salaryScenario
       \<in> set (recurringExpenses (analyzeTransactionPatterns (new_BankAnalyzer salaryScenario)))"
proof -
  have c: "length (filter (\<lambda>t. type t = ''Credit'' \<and> amount t = 50000) salaryScenario) \<ge> 3"
    by (simp add: salaryScenario_def transaction_def)
  have d: "length (filter (\<lambda>t. type t = ''Debit'' \<and> amount t = 1200) salaryScenario) \<ge> 2"
    by (simp add: salaryScenario_def transaction_def)
  from c d patterns_one_group_per_qualifying_amount [of salaryScenario] show ?thesis by blast
qed

text \<open>
  Claim C7 says that \<^verbatim>\<open>highVelocity\<close> is empty whenever every hour bucket has at most 5
  members. Six transactions of 31 December of the year before the year 0000, two hours
  apart, have one member in each hour bucket; the first 13 characters of their ISO strings
  name the day only, and all six are reported as one group.
\<close>

theorem no_bucket_over_limit_no_highVelocity_counterexample:
  "list_all (\<lambda>t. date t \<noteq> InvalidDate) negativeYearScenario
   \<and> list_all (\<lambda>t. length (filter (\<lambda>t'. truncatedToHour (date t') = truncatedToHour (date t))
                              negativeYearScenario) \<le> 5) negativeYearScenario
   \<and> detectFraudIndicators (\<lambda>t. 0) (new_BankAnalyzer negativeYearScenario)
        = Inr \<lparr> highVelocity = [negativeYearScenario],
                unusualTiming = take 3 negativeYearScenario \<rparr>
   \<and> [negativeYearScenario] \<noteq> []"
proof -
  have v: "list_all (\<lambda>t. date t \<noteq> InvalidDate) negativeYearScenario"
    by (simp add: negativeYearScenario_def transaction_def)
  have o: "list_all (\<lambda>t. length (filter (\<lambda>t'. truncatedToHour (date t') = truncatedToHour (date t))
                              negativeYearScenario) \<le> 5) negativeYearScenario"
    by (simp add: negativeYearScenario_def transaction_def msPerHour_def)
  have e: "detectFraudIndicators (\<lambda>t. 0) (new_BankAnalyzer negativeYearScenario)
        = Inr \<lparr> highVelocity = [negativeYearScenario],
                unusualTiming = take 3 negativeYearScenario \<rparr>"
    by (simp add: detectFraudIndicators_def new_BankAnalyzer_def negativeYearScenario_def
        transaction_def lodash_filter_def ownPropertyOrder_def noIndex_def fourDigitYear_def
        Day_def HourFromTime_def msPerDay_def msPerHour_def)
  show ?thesis by (intro conjI v o e) simp
qed

text \<open>
  Claim C7, amended. For a list of transactions whose dates are valid and lie in the years
  0000 to 9999, and in which no hour bucket (the transactions of one truncated-to-hour
  time) has more than 5 members, the fraud screen returns with an empty \<^verbatim>\<open>highVelocity\<close>.
\<close>

theorem no_bucket_over_limit_no_highVelocity:
  assumes "\<forall>t \<in> set txs. fourDigitYearDate (date t)"
    and "\<forall>t \<in> set txs.
           length (filter (\<lambda>t'. truncatedToHour (date t') = truncatedToHour (date t)) txs) \<le> 5"
  shows "\<exists>f. detectFraudIndicators tza (new_BankAnalyzer txs) = Inr f \<and> highVelocity f = []"
proof -
  let ?hour = "\<lambda>t. truncatedToHour (date t)"
  let ?hv = "lodash_filter noIndex (\<lambda>group. length group > 5)
               (groupBy (\<lambda>t. projr (toISOString_slice13 (date t))) txs)"
  have v: "\<forall>t \<in> set (transactions (new_BankAnalyzer txs)). date t \<noteq> InvalidDate"
    using assms(1) fourDigitYearDate_valid by (simp add: new_BankAnalyzer_def)
  obtain f where f: "detectFraudIndicators tza (new_BankAnalyzer txs) = Inr f"
    and hv: "highVelocity f = ?hv"
    using detectFraudIndicators_valid [OF v, of tza] by (simp add: new_BankAnalyzer_def)
  have "g \<notin> set ?hv" for g
  proof
    assume "g \<in> set ?hv"
    then obtain h where h: "g = filter (\<lambda>t. ?hour t = Some h) txs" "length g > 5"
      unfolding highVelocity_iff_hour [OF assms(1)] by blast
    then have "g \<noteq> []" by auto
    then obtain t where t: "t \<in> set txs" "?hour t = Some h"
      using h(1) by (auto simp: filter_empty_conv)
    have "length (filter (\<lambda>t'. ?hour t' = ?hour t) txs) \<le> 5" using assms(2) t(1) by blast
    then show False using h t(2) by simp
  qed
  then have "?hv = []" by (cases ?hv) (auto simp del: set_empty)
  with f hv show ?thesis by simp
qed

text \<open>
  Eight transactions within one span of less than an hour, four on each side of 11:00 UTC:
  nothing is flagged.
\<close>

theorem no_bucket_over_limit_no_highVelocity_witness:
  "list_all (\<lambda>t. fourDigitYearDate (date t)) splitBurstScenario
   \<and> list_all (\<lambda>t. length (filter (\<lambda>t'. truncatedToHour (date t') = truncatedToHour (date t))
                              splitBurstScenario) \<le> 5) splitBurstScenario
   \<and> length splitBurstScenario = 8
   \<and> map (\<lambda>t. truncatedToHour (date t)) splitBurstScenario
       = [Some 473698, Some 473698, Some 473698, Some 473698,
          Some 473699, Some 473699, Some 473699, Some 473699]
   \<and> date (hd splitBurstScenario) = TimeValue 1705315500000
   \<and> date (last splitBurstScenario) = TimeValue 1705317240000
   \<and> 1705317240000 - 1705315500000 < msPerHour
   \<and> (\<exists>f. detectFraudIndicators (\<lambda>t. 19800000) (new_BankAnalyzer splitBurstScenario) = Inr f
        \<and> highVelocity f = [])"
proof -
  have v: "\<forall>t \<in> set splitBurstScenario. fourDigitYearDate (date t)"
    by (simp add: splitBurstScenario_def transaction_def fourDigitYear_def)
  have b: "\<forall>t \<in> set splitBurstScenario.
         length (filter (\<lambda>t'. truncatedToHour (date t') = truncatedToHour (date t))
                   splitBurstScenario) \<le> 5"
    by (simp add: splitBurstScenario_def transaction_def msPerHour_def)
  have n: "length splitBurstScenario = 8"
    by (simp add: splitBurstScenario_def)
  have k: "map (\<lambda>t. truncatedToHour (date t)) splitBurstScenario
       = [Some 473698, Some 473698, Some 473698, Some 473698,
          Some 473699, Some 473699, Some 473699, Some 473699]"
    by (simp add: splitBurstScenario_def transaction_def msPerHour_def)
  have w: "date (hd splitBurstScenario) = TimeValue 1705315500000
     \<and> date (last splitBurstScenario) = TimeValue 1705317240000
     \<and> 1705317240000 - 1705315500000 < msPerHour"
    by (simp add: splitBurstScenario_def transaction_def msPerHour_def)
  have r: "\<exists>f. detectFraudIndicators (\<lambda>t. 19800000) (new_BankAnalyzer splitBurstScenario) = Inr f
        \<and> highVelocity f = []"
    using v b by (rule no_bucket_over_limit_no_highVelocity)
  from v b show ?thesis
    unfolding list_all_iff by (intro conjI n k r w [THEN conjunct1]
      w [THEN conjunct2, THEN conjunct1] w [THEN conjunct2, THEN conjunct2])
qed

text \<open>
  Claim C8 says that a permutation of the input leaves the recommendations identical.
  The sum of the balances is rounded after each addition, so it depends on their order: the
  balances 171046.67, 6568.34, 122384.99 give the mean 100000 and no recommendation, and the
  same three transactions with the last two exchanged give a mean above 100000 and the
  investment recommendation.
\<close>

theorem permutation_same_result_up_to_order_counterexample:
  "mset roundingScenarioPermuted = mset roundingScenario
   \<and> analyzeBusinessOpportunities (new_BankAnalyzer roundingScenario)
       = \<lparr> crossSell = [], upSell = [] \<rparr>
   \<and> analyzeBusinessOpportunities (new_BankAnalyzer roundingScenarioPermuted)
       = \<lparr> crossSell = [mutualFundInvestment], upSell = [] \<rparr>
   \<and> analyzeBusinessOpportunities (new_BankAnalyzer roundingScenarioPermuted)
       \<noteq> analyzeBusinessOpportunities (new_BankAnalyzer roundingScenario)"
proof -
  have p: "mset roundingScenarioPermuted = mset roundingScenario"
    by (simp add: roundingScenario_def roundingScenarioPermuted_def)
  have d: "\<not> js_gt (digitalTransactions (new_BankAnalyzer roundingScenario)) (js_literal (7 / 10))"
    by (simp add: digital_rule_exact roundingScenario_length)
       (simp add: roundingScenario_def transaction_def digitalChannels_def)
  have d': "\<not> js_gt (digitalTransactions (new_BankAnalyzer roundingScenarioPermuted))
                (js_literal (7 / 10))"
    by (simp add: digital_rule_exact roundingScenario_length)
       (simp add: roundingScenarioPermuted_def transaction_def digitalChannels_def)
  have m: "\<not> js_gt (maxBalance (new_BankAnalyzer roundingScenario)) 500000"
    unfolding peak_rule_exact
    using arg_cong [OF roundingScenario_balances(1), of set] by simp
  have m': "\<not> js_gt (maxBalance (new_BankAnalyzer roundingScenarioPermuted)) 500000"
    unfolding peak_rule_exact
    using arg_cong [OF roundingScenario_balances(2), of set] by simp
  have 1: "analyzeBusinessOpportunities (new_BankAnalyzer roundingScenario)
       = \<lparr> crossSell = [], upSell = [] \<rparr>"
    using d m
    by (intro Opportunities_eqI) (simp_all add: opportunities_form roundingScenario_mean)
  have 2: "analyzeBusinessOpportunities (new_BankAnalyzer roundingScenarioPermuted)
       = \<lparr> crossSell = [mutualFundInvestment], upSell = [] \<rparr>"
    using d' m'
    by (intro Opportunities_eqI) (simp_all add: opportunities_form roundingScenarioPermuted_mean)
  from p 1 2 show ?thesis by simp
qed

text \<open>
  Claim C8, amended. A permutation of the input gives the same groups of
  \<^verbatim>\<open>regularIncome\<close>, of \<^verbatim>\<open>recurringExpenses\<close> and of \<^verbatim>\<open>highVelocity\<close>, each with the same
  members, and the same members of \<^verbatim>\<open>unusualTiming\<close> (or the same exception of the fraud
  screen); groups and lists are compared as multisets. The card recommendation and the
  premium account recommendation are the same for both orders: \<^verbatim>\<open>upSell\<close> is identical, and
  \<^verbatim>\<open>crossSell\<close> is identical once the investment recommendation is left out of both.
\<close>

theorem permutation_same_result_up_to_order:
  assumes "mset ys = mset xs"
  shows "mset (map mset (regularIncome (analyzeTransactionPatterns (new_BankAnalyzer ys)))) =
         mset (map mset (regularIncome (analyzeTransactionPatterns (new_BankAnalyzer xs))))
    \<and> mset (map mset (recurringExpenses (analyzeTransactionPatterns (new_BankAnalyzer ys)))) =
         mset (map mset (recurringExpenses (analyzeTransactionPatterns (new_BankAnalyzer xs))))
    \<and> map_sum id (\<lambda>f. (mset (map mset (highVelocity f)), mset (unusualTiming f)))
           (detectFraudIndicators tza (new_BankAnalyzer ys)) =
       map_sum id (\<lambda>f. (mset (map mset (highVelocity f)), mset (unusualTiming f)))
           (detectFraudIndicators tza (new_BankAnalyzer xs))
    \<and> removeAll mutualFundInvestment
         (crossSell (analyzeBusinessOpportunities (new_BankAnalyzer ys))) =
       removeAll mutualFundInvestment
         (crossSell (analyzeBusinessOpportunities (new_BankAnalyzer xs)))
    \<and> upSell (analyzeBusinessOpportunities (new_BankAnalyzer ys)) =
       upSell (analyzeBusinessOpportunities (new_BankAnalyzer xs))"
  using patterns_permutation [OF assms] fraud_permutation [OF assms]
    opportunities_permutation [OF assms]
  by blast

text \<open>
  The two debits in reverse order.
\<close>

theorem permutation_same_result_up_to_order_witness:
  "mset (rev twoDebits) = mset twoDebits
   \<and> mset (map mset (recurringExpenses (analyzeTransactionPatterns (new_BankAnalyzer (rev twoDebits)))))
       = {# mset twoDebits #}
   \<and> removeAll mutualFundInvestment
       (crossSell (analyzeBusinessOpportunities (new_BankAnalyzer (rev twoDebits))))
       = [premiumCreditCard]
   \<and> upSell (analyzeBusinessOpportunities (new_BankAnalyzer (rev twoDebits))) = []"
proof -
  have p: "mset (rev twoDebits) = mset twoDebits" by simp
  have r: "recurringExpenses (analyzeTransactionPatterns (new_BankAnalyzer twoDebits)) = [twoDebits]"
    by (simp add: analyzeTransactionPatterns_def new_BankAnalyzer_def twoDebits_def
      transaction_def lodash_filter_def ownPropertyOrder_def groupBy_def arrayIndex_def)
  have d: "js_gt (digitalTransactions (new_BankAnalyzer twoDebits)) (js_literal (7 / 10))"
    by (simp add: digital_rule_exact twoDebits_def)
       (simp add: transaction_def digitalChannels_def)
  have m: "\<not> js_gt (maxBalance (new_BankAnalyzer twoDebits)) 500000"
    unfolding peak_rule_exact by (simp add: twoDebits_def transaction_def)
  have ne: "premiumCreditCard \<noteq> mutualFundInvestment"
    by (simp add: premiumCreditCard_def mutualFundInvestment_def)
  have c: "removeAll mutualFundInvestment
       (crossSell (analyzeBusinessOpportunities (new_BankAnalyzer twoDebits)))
       = [premiumCreditCard]"
    using d ne by (simp add: opportunities_form)
  have u: "upSell (analyzeBusinessOpportunities (new_BankAnalyzer twoDebits)) = []"
    using m by (simp add: opportunities_form)
  from permutation_same_result_up_to_order [OF p] r c u show ?thesis by simp
qed

text \<open>
  Claim C9. Let \<open>t\<close> be a transaction of the input, after the transactions \<open>pre\<close> and before
  the transactions \<open>post\<close>, whose type is neither Credit nor Debit. It is in no group of
  \<^verbatim>\<open>regularIncome\<close> or \<^verbatim>\<open>recurringExpenses\<close>. With valid dates, it is in \<^verbatim>\<open>unusualTiming\<close>
  exactly when its local hour is one of 23, 0, 1, 2, 3, 4, and it is in a group of
  \<^verbatim>\<open>highVelocity\<close> exactly when the transactions with its key (the first 13 characters of
  the ISO string) are more than 5. The digital ratio and the mean balance are divided by the
  count that includes \<open>t\<close>, the balance of \<open>t\<close> is added to the sum of the mean at its place
  in the input, and the greatest balance is taken over the balance of \<open>t\<close> and those of the
  others.
\<close>

theorem other_type_only_excluded_from_patterns:
  assumes "txs = pre @ t # post" and "type t \<noteq> ''Credit''" and "type t \<noteq> ''Debit''"
    and "\<forall>t' \<in> set txs. date t' \<noteq> InvalidDate"
  shows "(\<forall>g \<in> set (regularIncome (analyzeTransactionPatterns (new_BankAnalyzer txs))). t \<notin> set g)
    \<and> (\<forall>g \<in> set (recurringExpenses (analyzeTransactionPatterns (new_BankAnalyzer txs))). t \<notin> set g)
    \<and> (\<exists>f. detectFraudIndicators tza (new_BankAnalyzer txs) = Inr f
          \<and> (t \<in> set (unusualTiming f) \<longleftrightarrow>
               (\<exists>h \<in> {23, 0, 1, 2, 3, 4}. getHours tza (date t) = Number (of_int h)))
          \<and> ((\<exists>g \<in> set (highVelocity f). t \<in> set g) \<longleftrightarrow>
               length (filter (\<lambda>t'. toISOString_slice13 (date t') = toISOString_slice13 (date t)) txs) > 5))
    \<and> digitalTransactions (new_BankAnalyzer txs) =
         js_div (Number (of_nat (length (filter (\<lambda>t'. channel t' \<in> set digitalChannels) txs))))
                (length pre + 1 + length post)
    \<and> averageBalance (new_BankAnalyzer txs) =
         js_div (foldl baseSum_step (baseSum_step (baseSum (map balance pre)) (balance t))
                   (map balance post))
                (length pre + 1 + length post)
    \<and> maxBalance (new_BankAnalyzer txs) =
         Number (Max (insert (balance t) (balance ` (set pre \<union> set post))))"
proof -
  let ?b = "\<lambda>t. toISOString_slice13 (date t)"
  have mem: "t \<in> set txs" using assms(1) by simp
  have 1: "\<forall>g \<in> set (regularIncome (analyzeTransactionPatterns (new_BankAnalyzer txs))). t \<notin> set g"
  proof
    fix g assume "g \<in> set (regularIncome (analyzeTransactionPatterns (new_BankAnalyzer txs)))"
    then obtain a where "g = filter (\<lambda>t. type t = ''Credit'' \<and> amount t = a) txs"
      by (auto simp: analyzeTransactionPatterns_def new_BankAnalyzer_def pattern_group_iff)
    then show "t \<notin> set g" using assms(2) by simp
  qed
  have 2: "\<forall>g \<in> set (recurringExpenses (analyzeTransactionPatterns (new_BankAnalyzer txs))). t \<notin> set g"
  proof
    fix g assume "g \<in> set (recurringExpenses (analyzeTransactionPatterns (new_BankAnalyzer txs)))"
    then obtain a where "g = filter (\<lambda>t. type t = ''Debit'' \<and> amount t = a) txs"
      by (auto simp: analyzeTransactionPatterns_def new_BankAnalyzer_def pattern_group_iff)
    then show "t \<notin> set g" using assms(3) by simp
  qed
  obtain f where f: "detectFraudIndicators tza (new_BankAnalyzer txs) = Inr f"
    and hv: "highVelocity f = lodash_filter noIndex (\<lambda>group. length group > 5)
               (groupBy (\<lambda>t. projr (?b t)) txs)"
    and ut: "unusualTiming f =
       filter (\<lambda>t. js_ge (getHours tza (date t)) 23 \<or> js_le (getHours tza (date t)) 4) txs"
    using detectFraudIndicators_new_valid [OF assms(4), of tza] by blast
  have 3: "t \<in> set (unusualTiming f) \<longleftrightarrow>
               (\<exists>h \<in> {23, 0, 1, 2, 3, 4}. getHours tza (date t) = Number (of_int h))"
  proof -
    have "date t \<noteq> InvalidDate" using mem assms(4) by blast
    then show ?thesis
      using mem by (simp only: ut set_filter mem_Collect_eq suspicious_hour_iff simp_thms)
  qed
  obtain k where k: "?b t = Inr k"
    using mem assms(4) valid_date_bucket by blast
  have 4: "(\<exists>g \<in> set (highVelocity f). t \<in> set g) \<longleftrightarrow>
               length (filter (\<lambda>t'. ?b t' = ?b t) txs) > 5"
  proof
    assume "\<exists>g \<in> set (highVelocity f). t \<in> set g"
    then obtain g where "g \<in> set (highVelocity f)" "t \<in> set g" by blast
    then obtain k' where k': "g = filter (\<lambda>t'. ?b t' = Inr k') txs" "length g > 5"
      unfolding hv highVelocity_iff [OF assms(4)] by blast
    with \<open>t \<in> set g\<close> have "?b t = Inr k'" by simp
    with k' show "length (filter (\<lambda>t'. ?b t' = ?b t) txs) > 5" by simp
  next
    assume l: "length (filter (\<lambda>t'. ?b t' = ?b t) txs) > 5"
    then have "filter (\<lambda>t'. ?b t' = Inr k) txs \<in> set (highVelocity f)"
      unfolding hv highVelocity_iff [OF assms(4)] k by blast
    moreover have "t \<in> set (filter (\<lambda>t'. ?b t' = Inr k) txs)"
      using mem k by simp
    ultimately show "\<exists>g \<in> set (highVelocity f). t \<in> set g" by blast
  qed
  have 5: "digitalTransactions (new_BankAnalyzer txs) =
         js_div (Number (of_nat (length (filter (\<lambda>t'. channel t' \<in> set digitalChannels) txs))))
                (length pre + 1 + length post)"
  proof -
    have "length txs = length pre + 1 + length post" using assms(1) by simp
    then show ?thesis by (simp add: digitalTransactions_def new_BankAnalyzer_def)
  qed
  have 6: "averageBalance (new_BankAnalyzer txs) =
         js_div (foldl baseSum_step (baseSum_step (baseSum (map balance pre)) (balance t))
                   (map balance post))
                (length pre + 1 + length post)"
    unfolding assms(1)
    by (simp add: averageBalance_def new_BankAnalyzer_def lodash_mean_def baseSum_append)
  have "balance ` set txs = insert (balance t) (balance ` (set pre \<union> set post))"
    unfolding assms(1) by auto
  then have 7: "maxBalance (new_BankAnalyzer txs) =
         Number (Max (insert (balance t) (balance ` (set pre \<union> set post))))"
    using assms(1) by (simp add: maxBalance_def new_BankAnalyzer_def lodash_max_Max image_Un)
  from 1 2 f 3 4 5 6 7 show ?thesis by blast
qed

text \<open>
  A transaction of type Reversal among five others: it is in no pattern group, it is in
  the flagged bucket of six and in \<^verbatim>\<open>unusualTiming\<close>, and only with it the mean and the
  greatest balance pass their thresholds.
\<close>

theorem other_type_only_excluded_from_patterns_witness:
  "otherTypeScenario = [hd otherTypeScenario] @ reversal # drop 2 otherTypeScenario
   \<and> type reversal = ''Reversal''
   \<and> list_all (\<lambda>t. date t \<noteq> InvalidDate) otherTypeScenario
   \<and> reversal \<notin> set (drop 3 otherTypeScenario)
   \<and> regularIncome (analyzeTransactionPatterns (new_BankAnalyzer otherTypeScenario))
       = [drop 3 otherTypeScenario]
   \<and> reversal \<notin> set [otherTypeScenario ! 0, otherTypeScenario ! 2]
   \<and> recurringExpenses (analyzeTransactionPatterns (new_BankAnalyzer otherTypeScenario))
       = [ [otherTypeScenario ! 0, otherTypeScenario ! 2] ]
   \<and> detectFraudIndicators (\<lambda>t. 19800000) (new_BankAnalyzer otherTypeScenario)
       = Inr \<lparr> highVelocity = [otherTypeScenario], unusualTiming = otherTypeScenario \<rparr>
   \<and> digitalTransactions (new_BankAnalyzer otherTypeScenario) = Number 1
   \<and> averageBalance (new_BankAnalyzer otherTypeScenario) = Number 101000
   \<and> maxBalance (new_BankAnalyzer otherTypeScenario) = Number 600000
   \<and> analyzeBusinessOpportunities (new_BankAnalyzer otherTypeScenario)
       = \<lparr> crossSell = [premiumCreditCard, mutualFundInvestment],
           upSell = [premiumBankingAccount] \<rparr>
   \<and> analyzeBusinessOpportunities
        (new_BankAnalyzer (remove1 reversal otherTypeScenario))
       = \<lparr> crossSell = [premiumCreditCard], upSell = [] \<rparr>"
proof -
  let ?t = "reversal"
  let ?pre = "[hd otherTypeScenario]"
  let ?post = "drop 2 otherTypeScenario"
  have a1: "otherTypeScenario = ?pre @ ?t # ?post" by (simp add: otherTypeScenario_def)
  have ty: "type ?t = ''Reversal''" by (simp add: transaction_def reversal_def)
  have a2: "type ?t \<noteq> ''Credit''" unfolding ty by simp
  have a3: "type ?t \<noteq> ''Debit''" unfolding ty by simp
  note a4 = otherTypeScenario_valid
  note th = other_type_only_excluded_from_patterns [OF a1 a2 a3 a4, of "\<lambda>t. 19800000"]
  have pre: "?pre = [transaction 1705339800000 1200 ''Debit'' ''UPI'' 1200]"
    by (simp add: otherTypeScenario_def)
  have post: "?post = [transaction 1705340400000 1200 ''Debit'' ''Card'' 1200,
       transaction 1705340700000 700 ''Credit'' ''UPI'' 1200,
       transaction 1705341000000 700 ''Credit'' ''UPI'' 1200,
       transaction 1705341300000 700 ''Credit'' ''UPI'' 1200]"
    by (simp add: otherTypeScenario_def)
  have c: "length (filter (\<lambda>t'. channel t' \<in> set digitalChannels) otherTypeScenario) = 6"
    by (simp add: otherTypeScenario_def transaction_def reversal_def digitalChannels_def)
  from th have 1: "?t \<notin> set (drop 3 otherTypeScenario)"
    by (simp add: otherTypeScenario_patterns)
  from th have 2: "?t \<notin> set [otherTypeScenario ! 0, otherTypeScenario ! 2]"
    by (simp add: otherTypeScenario_patterns)
  from th have "digitalTransactions (new_BankAnalyzer otherTypeScenario) =
         js_div (Number (of_nat (length (filter (\<lambda>t'. channel t' \<in> set digitalChannels)
                                           otherTypeScenario))))
                (length ?pre + 1 + length ?post)"
    by blast
  then have 3: "digitalTransactions (new_BankAnalyzer otherTypeScenario) = Number 1"
    unfolding pre post c
    by (simp add: toDouble_one)
  from th have "averageBalance (new_BankAnalyzer otherTypeScenario) =
         js_div (foldl baseSum_step (baseSum_step (baseSum (map balance ?pre)) (balance ?t))
                   (map balance ?post))
                (length ?pre + 1 + length ?post)"
    by blast
  then have 4: "averageBalance (new_BankAnalyzer otherTypeScenario) = Number 101000"
    unfolding pre post
    by (simp add: transaction_def reversal_def baseSum_Cons baseSum_step_def toDouble_numeral)
  from th have "maxBalance (new_BankAnalyzer otherTypeScenario) =
         Number (Max (insert (balance ?t) (balance ` (set ?pre \<union> set ?post))))"
    by blast
  then have 5: "maxBalance (new_BankAnalyzer otherTypeScenario) = Number 600000"
    unfolding pre post by (simp add: transaction_def reversal_def)
  have l7: "js_literal (7 / 10) < 1"
    unfolding js_literal_0_7 by simp
  have 6: "analyzeBusinessOpportunities (new_BankAnalyzer otherTypeScenario)
       = \<lparr> crossSell = [premiumCreditCard, mutualFundInvestment],
           upSell = [premiumBankingAccount] \<rparr>"
    using l7 by (intro Opportunities_eqI) (simp_all add: opportunities_form 3 4 5)
  define rest where "rest = remove1 reversal otherTypeScenario"
  have rm: "rest = [transaction 1705339800000 1200 ''Debit'' ''UPI'' 1200,
       transaction 1705340400000 1200 ''Debit'' ''Card'' 1200,
       transaction 1705340700000 700 ''Credit'' ''UPI'' 1200,
       transaction 1705341000000 700 ''Credit'' ''UPI'' 1200,
       transaction 1705341300000 700 ''Credit'' ''UPI'' 1200]"
    by (simp add: rest_def otherTypeScenario_def transaction_def reversal_def)
  have d: "js_gt (digitalTransactions (new_BankAnalyzer rest)) (js_literal (7 / 10))"
    unfolding rm
    by (simp add: digital_rule_exact) (simp add: transaction_def digitalChannels_def)
  have m: "\<not> js_gt (maxBalance (new_BankAnalyzer rest)) 500000"
    unfolding peak_rule_exact rm by (simp add: transaction_def)
  have a: "averageBalance (new_BankAnalyzer rest) = Number 1200"
    unfolding rm
    by (simp add: averageBalance_def new_BankAnalyzer_def lodash_mean_def transaction_def
        baseSum_Cons baseSum_step_def toDouble_numeral)
  have "analyzeBusinessOpportunities (new_BankAnalyzer rest)
       = \<lparr> crossSell = [premiumCreditCard], upSell = [] \<rparr>"
    using d m by (intro Opportunities_eqI) (simp_all add: opportunities_form a)
  then have 7: "analyzeBusinessOpportunities (new_BankAnalyzer (remove1 reversal otherTypeScenario))
       = \<lparr> crossSell = [premiumCreditCard], upSell = [] \<rparr>"
    unfolding rest_def .
  have v: "list_all (\<lambda>t. date t \<noteq> InvalidDate) otherTypeScenario"
    using a4 unfolding list_all_iff .
  have p1: "regularIncome (analyzeTransactionPatterns (new_BankAnalyzer otherTypeScenario))
       = [drop 3 otherTypeScenario]"
    by (simp add: otherTypeScenario_patterns)
  have p2: "recurringExpenses (analyzeTransactionPatterns (new_BankAnalyzer otherTypeScenario))
       = [ [otherTypeScenario ! 0, otherTypeScenario ! 2] ]"
    by (simp add: otherTypeScenario_patterns)
  show ?thesis
    by (intro conjI a1 ty v 1 2 3 4 5 6 7 p1 p2 otherTypeScenario_fraud)
qed

text \<open>
  Claim C10. Every group of \<^verbatim>\<open>regularIncome\<close> and of \<^verbatim>\<open>recurringExpenses\<close> is a
  subsequence of the input: its members are transactions of the input, in the order of the
  input. With valid dates the same holds for every group of \<^verbatim>\<open>highVelocity\<close> and for
  \<^verbatim>\<open>unusualTiming\<close>.

  The input is not modified: let \<open>s\<close> be any store in which the array at the address
  \<open>array\<close> holds references to the transactions \<open>txs\<close>. Each of the three methods, run on
  \<open>s\<close>, returns a store \<open>s'\<close> of which \<open>s\<close> is a prefix, so every object that existed before
  the call (the array, its transactions, and any other object) is unchanged and every write
  of the method went to an object that the method created; the array still holds \<open>txs\<close>; and
  the arrays that the returned references lead to hold what the methods on lists return.
  The same holds for the three methods run in turn as \<^verbatim>\<open>processFile\<close> does. For the fraud
  screen and the whole run the dates are valid.
\<close>

theorem input_unmodified_outputs_subsequences:
  "(\<forall>g \<in> set (regularIncome (analyzeTransactionPatterns (new_BankAnalyzer txs))). subseq g txs)
   \<and> (\<forall>g \<in> set (recurringExpenses (analyzeTransactionPatterns (new_BankAnalyzer txs))). subseq g txs)
   \<and> ((\<forall>t \<in> set txs. date t \<noteq> InvalidDate) \<longrightarrow>
        (\<exists>f. detectFraudIndicators tza (new_BankAnalyzer txs) = Inr f
           \<and> (\<forall>g \<in> set (highVelocity f). subseq g txs)
           \<and> subseq (unusualTiming f) txs))
   \<and> (rowsAt s array = Inr txs \<longrightarrow>
        (\<exists>p s'. analyzeTransactionPatterns_store (new_BankAnalyzerObject array) s = Inr (p, s')
           \<and> prefix s s' \<and> rowsAt s' array = Inr txs
           \<and> groupsAt s' (regularIncomeRef p)
              = Inr (regularIncome (analyzeTransactionPatterns (new_BankAnalyzer txs)))
           \<and> groupsAt s' (recurringExpensesRef p)
              = Inr (recurringExpenses (analyzeTransactionPatterns (new_BankAnalyzer txs))))
      \<and> (\<exists>p s'. analyzeBusinessOpportunities_store (new_BankAnalyzerObject array) s = Inr (p, s')
           \<and> prefix s s' \<and> rowsAt s' array = Inr txs
           \<and> loadRecommendations s' (crossSellRef p)
              = Inr (crossSell (analyzeBusinessOpportunities (new_BankAnalyzer txs)))
           \<and> loadRecommendations s' (upSellRef p)
              = Inr (upSell (analyzeBusinessOpportunities (new_BankAnalyzer txs)))))
   \<and> (rowsAt s array = Inr txs \<and> (\<forall>t \<in> set txs. date t \<noteq> InvalidDate) \<longrightarrow>
        (\<exists>p s' f. detectFraudIndicators_store tza (new_BankAnalyzerObject array) s = Inr (p, s')
           \<and> prefix s s' \<and> rowsAt s' array = Inr txs
           \<and> detectFraudIndicators tza (new_BankAnalyzer txs) = Inr f
           \<and> groupsAt s' (highVelocityRef p) = Inr (highVelocity f)
           \<and> rowsAt s' (unusualTimingRef p) = Inr (unusualTiming f))
      \<and> (\<exists>r s'. analyze_store tza array s = Inr (r, s')
           \<and> prefix s s' \<and> rowsAt s' array = Inr txs
           \<and> resultAt s' r = analyze tza txs))"
proof -
  have 1: "\<forall>g \<in> set (regularIncome (analyzeTransactionPatterns (new_BankAnalyzer txs))). subseq g txs"
  proof
    fix g assume "g \<in> set (regularIncome (analyzeTransactionPatterns (new_BankAnalyzer txs)))"
    then obtain a where "g = filter (\<lambda>t. type t = ''Credit'' \<and> amount t = a) txs"
      by (auto simp: analyzeTransactionPatterns_def new_BankAnalyzer_def pattern_group_iff)
    then show "subseq g txs" by (simp only: subseq_filter_left)
  qed
  have 2: "\<forall>g \<in> set (recurringExpenses (analyzeTransactionPatterns (new_BankAnalyzer txs))). subseq g txs"
  proof
    fix g assume "g \<in> set (recurringExpenses (analyzeTransactionPatterns (new_BankAnalyzer txs)))"
    then obtain a where "g = filter (\<lambda>t. type t = ''Debit'' \<and> amount t = a) txs"
      by (auto simp: analyzeTransactionPatterns_def new_BankAnalyzer_def pattern_group_iff)
    then show "subseq g txs" by (simp only: subseq_filter_left)
  qed
  have 3: "\<exists>f. detectFraudIndicators tza (new_BankAnalyzer txs) = Inr f
           \<and> (\<forall>g \<in> set (highVelocity f). subseq g txs)
           \<and> subseq (unusualTiming f) txs"
    if valid: "\<forall>t \<in> set txs. date t \<noteq> InvalidDate"
  proof -
    obtain f where f: "detectFraudIndicators tza (new_BankAnalyzer txs) = Inr f"
      and hv: "highVelocity f = lodash_filter noIndex (\<lambda>group. length group > 5)
               (groupBy (\<lambda>t. projr (toISOString_slice13 (date t))) txs)"
      and ut: "unusualTiming f =
         filter (\<lambda>t. js_ge (getHours tza (date t)) 23 \<or> js_le (getHours tza (date t)) 4) txs"
      using detectFraudIndicators_new_valid [OF valid, of tza] by blast
    have "\<forall>g \<in> set (highVelocity f). subseq g txs"
    proof
      fix g assume "g \<in> set (highVelocity f)"
      then obtain k where "g = filter (\<lambda>t. toISOString_slice13 (date t) = Inr k) txs"
        unfolding hv highVelocity_iff [OF valid] by blast
      then show "subseq g txs" by (simp only: subseq_filter_left)
    qed
    moreover have "subseq (unusualTiming f) txs"
      unfolding ut by (rule subseq_filter_left)
    ultimately show ?thesis using f by blast
  qed
  have 4: "\<exists>p s'. analyzeTransactionPatterns_store (new_BankAnalyzerObject array) s = Inr (p, s')
           \<and> prefix s s' \<and> rowsAt s' array = Inr txs
           \<and> groupsAt s' (regularIncomeRef p)
              = Inr (regularIncome (analyzeTransactionPatterns (new_BankAnalyzer txs)))
           \<and> groupsAt s' (recurringExpensesRef p)
              = Inr (recurringExpenses (analyzeTransactionPatterns (new_BankAnalyzer txs)))"
    if r: "rowsAt s array = Inr txs"
  proof -
    have "rowsAt s (transactionsRef (new_BankAnalyzerObject array)) = Inr txs"
      using r by (simp add: new_BankAnalyzerObject_def)
    from analyzeTransactionPatterns_store_refines [OF this]
    obtain p ext where
      "analyzeTransactionPatterns_store (new_BankAnalyzerObject array) s = Inr (p, s @ ext)"
      "groupsAt (s @ ext) (regularIncomeRef p)
         = Inr (regularIncome (analyzeTransactionPatterns (new_BankAnalyzer txs)))"
      "groupsAt (s @ ext) (recurringExpensesRef p)
         = Inr (recurringExpenses (analyzeTransactionPatterns (new_BankAnalyzer txs)))"
      by blast
    moreover have "prefix s (s @ ext)" by simp
    moreover have "rowsAt (s @ ext) array = Inr txs" using r by (rule rowsAt_append)
    ultimately show ?thesis by blast
  qed
  have 5: "\<exists>p s'. analyzeBusinessOpportunities_store (new_BankAnalyzerObject array) s = Inr (p, s')
           \<and> prefix s s' \<and> rowsAt s' array = Inr txs
           \<and> loadRecommendations s' (crossSellRef p)
              = Inr (crossSell (analyzeBusinessOpportunities (new_BankAnalyzer txs)))
           \<and> loadRecommendations s' (upSellRef p)
              = Inr (upSell (analyzeBusinessOpportunities (new_BankAnalyzer txs)))"
    if r: "rowsAt s array = Inr txs"
  proof -
    from analyzeBusinessOpportunities_store_refines [OF r]
    obtain p ext where
      "analyzeBusinessOpportunities_store (new_BankAnalyzerObject array) s = Inr (p, s @ ext)"
      "loadRecommendations (s @ ext) (crossSellRef p)
         = Inr (crossSell (analyzeBusinessOpportunities (new_BankAnalyzer txs)))"
      "loadRecommendations (s @ ext) (upSellRef p)
         = Inr (upSell (analyzeBusinessOpportunities (new_BankAnalyzer txs)))"
      by blast
    moreover have "prefix s (s @ ext)" by simp
    moreover have "rowsAt (s @ ext) array = Inr txs" using r by (rule rowsAt_append)
    ultimately show ?thesis by blast
  qed
  have 6: "\<exists>p s' f. detectFraudIndicators_store tza (new_BankAnalyzerObject array) s = Inr (p, s')
           \<and> prefix s s' \<and> rowsAt s' array = Inr txs
           \<and> detectFraudIndicators tza (new_BankAnalyzer txs) = Inr f
           \<and> groupsAt s' (highVelocityRef p) = Inr (highVelocity f)
           \<and> rowsAt s' (unusualTimingRef p) = Inr (unusualTiming f)"
    if r: "rowsAt s array = Inr txs" and valid: "\<forall>t \<in> set txs. date t \<noteq> InvalidDate"
  proof -
    from detectFraudIndicators_store_refines [OF r valid, of tza]
    obtain p ext f where
      "detectFraudIndicators_store tza (new_BankAnalyzerObject array) s = Inr (p, s @ ext)"
      "detectFraudIndicators tza (new_BankAnalyzer txs) = Inr f"
      "groupsAt (s @ ext) (highVelocityRef p) = Inr (highVelocity f)"
      "rowsAt (s @ ext) (unusualTimingRef p) = Inr (unusualTiming f)"
      by blast
    moreover have "prefix s (s @ ext)" by simp
    moreover have "rowsAt (s @ ext) array = Inr txs" using r by (rule rowsAt_append)
    ultimately show ?thesis by blast
  qed
  have 7: "\<exists>r s'. analyze_store tza array s = Inr (r, s')
           \<and> prefix s s' \<and> rowsAt s' array = Inr txs
           \<and> resultAt s' r = analyze tza txs"
    if r: "rowsAt s array = Inr txs" and valid: "\<forall>t \<in> set txs. date t \<noteq> InvalidDate"
  proof -
    from analyze_store_refines [OF r valid, of tza]
    obtain res ext where
      "analyze_store tza array s = Inr (res, s @ ext)"
      "resultAt (s @ ext) res = analyze tza txs"
      by blast
    moreover have "prefix s (s @ ext)" by simp
    moreover have "rowsAt (s @ ext) array = Inr txs" using r by (rule rowsAt_append)
    ultimately show ?thesis by blast
  qed
  show ?thesis
    by (intro conjI impI 1 2 3 4 5 6 7) simp_all
qed

text \<open>
  The statement with a Reversal in a store of seven objects: the run creates seventeen
  more, the first seven are as before, and the result read from the store is the result on
  lists.
\<close>

theorem input_unmodified_outputs_subsequences_witness:
  "rowsAt otherTypeStore 6 = Inr otherTypeScenario
   \<and> list_all (\<lambda>t. date t \<noteq> InvalidDate) otherTypeScenario
   \<and> analyze_store (\<lambda>t. 19800000) 6 otherTypeStore =
       Inr (\<lparr> patternsRefs = \<lparr> regularIncomeRef = 11, recurringExpensesRef = 14 \<rparr>,
              fraudIndicatorsRefs = \<lparr> highVelocityRef = 17, unusualTimingRef = 18 \<rparr>,
              opportunitiesRefs = \<lparr> crossSellRef = 22, upSellRef = 23 \<rparr> \<rparr>,
            otherTypeStoreAfter)
   \<and> prefix otherTypeStore otherTypeStoreAfter
   \<and> rowsAt otherTypeStoreAfter 6 = Inr otherTypeScenario
   \<and> resultAt otherTypeStoreAfter
        \<lparr> patternsRefs = \<lparr> regularIncomeRef = 11, recurringExpensesRef = 14 \<rparr>,
          fraudIndicatorsRefs = \<lparr> highVelocityRef = 17, unusualTimingRef = 18 \<rparr>,
          opportunitiesRefs = \<lparr> crossSellRef = 22, upSellRef = 23 \<rparr> \<rparr>
       = analyze (\<lambda>t. 19800000) otherTypeScenario
   \<and> regularIncome (analyzeTransactionPatterns (new_BankAnalyzer otherTypeScenario))
       = [drop 3 otherTypeScenario]
   \<and> subseq (drop 3 otherTypeScenario) otherTypeScenario
   \<and> recurringExpenses (analyzeTransactionPatterns (new_BankAnalyzer otherTypeScenario))
       = [ [otherTypeScenario ! 0, otherTypeScenario ! 2] ]
   \<and> subseq [otherTypeScenario ! 0, otherTypeScenario ! 2] otherTypeScenario
   \<and> detectFraudIndicators (\<lambda>t. 19800000) (new_BankAnalyzer otherTypeScenario)
       = Inr \<lparr> highVelocity = [otherTypeScenario], unusualTiming = otherTypeScenario \<rparr>"
proof -
  let ?refs = "\<lparr> patternsRefs = \<lparr> regularIncomeRef = 11, recurringExpensesRef = 14 \<rparr>,
          fraudIndicatorsRefs = \<lparr> highVelocityRef = 17, unusualTimingRef = 18 \<rparr>,
          opportunitiesRefs = \<lparr> crossSellRef = 22, upSellRef = 23 \<rparr> \<rparr>"
  note th = input_unmodified_outputs_subsequences [of otherTypeScenario "\<lambda>t. 19800000" otherTypeStore 6]
  have r: "rowsAt otherTypeStore 6 = Inr otherTypeScenario"
    by (simp add: rowsAt_def otherTypeStore_def otherTypeScenario_def load_def nth_append)
  have v: "list_all (\<lambda>t. date t \<noteq> InvalidDate) otherTypeScenario"
    using otherTypeScenario_valid unfolding list_all_iff .
  from th r otherTypeScenario_valid
  obtain res s' where run: "analyze_store (\<lambda>t. 19800000) 6 otherTypeStore = Inr (res, s')"
    and fr: "prefix otherTypeStore s'" and un: "rowsAt s' 6 = Inr otherTypeScenario"
    and re: "resultAt s' res = analyze (\<lambda>t. 19800000) otherTypeScenario"
    by blast
  from run otherTypeStore_analyze have e: "res = ?refs" "s' = otherTypeStoreAfter"
    by simp_all
  have p1: "regularIncome (analyzeTransactionPatterns (new_BankAnalyzer otherTypeScenario))
       = [drop 3 otherTypeScenario]"
    by (simp add: otherTypeScenario_patterns)
  have p2: "recurringExpenses (analyzeTransactionPatterns (new_BankAnalyzer otherTypeScenario))
       = [ [otherTypeScenario ! 0, otherTypeScenario ! 2] ]"
    by (simp add: otherTypeScenario_patterns)
  have 1: "subseq (drop 3 otherTypeScenario) otherTypeScenario"
    using th by (simp add: p1)
  have 2: "subseq [otherTypeScenario ! 0, otherTypeScenario ! 2] otherTypeScenario"
    using th by (simp add: p2)
  show ?thesis
    using fr un re unfolding e
    by (intro conjI r v otherTypeStore_analyze p1 p2 1 2 otherTypeScenario_fraud)
qed

end
